theory Spec2Isabelle
  imports Complex_Main
begin

section \<open>JavaScript strings\<close>

text \<open>
  The importer (\<^verbatim>\<open>parseFile\<close>, \<^verbatim>\<open>parsePdf\<close>, \<^verbatim>\<open>parseEpub\<close>, \<^verbatim>\<open>htmlToText\<close>,
  \<^verbatim>\<open>splitIntoChapters\<close>) is TypeScript. A JavaScript string is a sequence of UTF-16 code
  units; \<^verbatim>\<open>length\<close>, \<^verbatim>\<open>substring\<close>, \<^verbatim>\<open>indexOf\<close> and the regular expressions (none of
  which carries the \<^verbatim>\<open>u\<close> flag) all count code units. A string is therefore a list of
  code units, each a natural number. The Vietnamese literals of the source are precomposed
  (NFC) and are written here by their code units.
\<close>

type_synonym cu = nat
type_synonym jstring = "cu list"

text \<open>An ASCII literal as a JavaScript string.\<close>

definition asc :: "string \<Rightarrow> jstring" where
  "asc s = map of_char s"

text \<open>
  The code units that \<^verbatim>\<open>String.prototype.trim\<close> strips and that \<^verbatim>\<open>\s\<close> matches
  (ECMAScript WhiteSpace and LineTerminator): TAB, LF, VT, FF, CR, SP, NBSP, U+1680,
  U+2000..U+200A, U+2028, U+2029, U+202F, U+205F, U+3000, U+FEFF.
\<close>

definition is_ws :: "cu \<Rightarrow> bool" where
  "is_ws c \<longleftrightarrow> c \<in> {9, 10, 11, 12, 13, 32, 160, 5760, 8232, 8233, 8239, 8287, 12288, 65279}
     \<or> (8192 \<le> c \<and> c \<le> 8202)"

definition trim :: "jstring \<Rightarrow> jstring" where
  "trim s = rev (dropWhile is_ws (rev (dropWhile is_ws s)))"

text \<open>
  \<^verbatim>\<open>s.substring(a, b)\<close>: both indices are clamped to the length and swapped when
  \<open>a > b\<close>.
\<close>

definition substring :: "jstring \<Rightarrow> nat \<Rightarrow> nat \<Rightarrow> jstring" where
  "substring s a b =
     (let a' = min a (length s); b' = min b (length s)
      in take (max a' b' - min a' b') (drop (min a' b') s))"

text \<open>\<^verbatim>\<open>s.indexOf(c, i)\<close> for a one-unit needle; \<open>None\<close> stands for \<open>-1\<close>.\<close>

fun indexOf :: "jstring \<Rightarrow> cu \<Rightarrow> nat \<Rightarrow> nat option" where
  "indexOf s c i =
     (case dropWhile (\<lambda>x. x \<noteq> c) (drop i s) of
        [] \<Rightarrow> None
      | _ # r \<Rightarrow> Some (length s - Suc (length r)))"

declare indexOf.simps [simp del]

section \<open>Regular expressions\<close>

text \<open>
  The patterns of the source are kept as syntax trees and run by a backtracking matcher
  that follows the ECMAScript semantics. \<open>ms r t s\<close> lists, in the order in which
  backtracking tries them, the states in which \<open>r\<close> can end when started in state \<open>s\<close>
  on input \<open>t\<close>; a state is the position reached and the captures made. The first
  element is the match the engine reports.

  \<^item> \<open>Bol\<close> is \<^verbatim>\<open>^\<close> without the \<^verbatim>\<open>m\<close> flag: position 0 only.
  \<^item> \<open>Atom p\<close> is one code unit satisfying \<open>p\<close> (a literal or a class).
  \<^item> \<open>Star\<close> is the greedy \<^verbatim>\<open>*\<close> and \<open>Upto n\<close> the greedy \<^verbatim>\<open>{0,n}\<close>: an
    iteration is tried first, then the empty continuation; an iteration that consumes
    nothing is rejected, and the captures inside the body are cleared before each iteration
    (RepeatMatcher).
  \<^item> \<open>Group k\<close> is the capturing group number \<open>k\<close>.
\<close>

type_synonym caps = "nat \<Rightarrow> (nat \<times> nat) option"
type_synonym mstate = "nat \<times> caps"

datatype regex =
    Eps
  | Bol
  | Atom "cu \<Rightarrow> bool"
  | Seq regex regex
  | Alt regex regex
  | Star regex
  | Upto nat regex
  | Group nat regex

fun rsize :: "regex \<Rightarrow> nat" where
  "rsize Eps = 1"
| "rsize Bol = 1"
| "rsize (Atom p) = 1"
| "rsize (Seq a b) = Suc (rsize a + rsize b)"
| "rsize (Alt a b) = Suc (rsize a + rsize b)"
| "rsize (Star a) = Suc (rsize a)"
| "rsize (Upto n a) = Suc (n + rsize a)"
| "rsize (Group k a) = Suc (rsize a)"

fun groups :: "regex \<Rightarrow> nat list" where
  "groups Eps = []"
| "groups Bol = []"
| "groups (Atom p) = []"
| "groups (Seq a b) = groups a @ groups b"
| "groups (Alt a b) = groups a @ groups b"
| "groups (Star a) = groups a"
| "groups (Upto n a) = groups a"
| "groups (Group k a) = k # groups a"

definition reset :: "regex \<Rightarrow> mstate \<Rightarrow> mstate" where
  "reset a s = (fst s, fold (\<lambda>k c. c(k := None)) (groups a) (snd s))"

function ms :: "regex \<Rightarrow> jstring \<Rightarrow> mstate \<Rightarrow> mstate list" where
  "ms Eps t s = [s]"
| "ms Bol t s = (if fst s = 0 then [s] else [])"
| "ms (Atom p) t s =
     (if fst s < length t \<and> p (t ! fst s) then [(fst s + 1, snd s)] else [])"
| "ms (Seq a b) t s = concat (map (ms b t) (ms a t s))"
| "ms (Alt a b) t s = ms a t s @ ms b t s"
| "ms (Star a) t s =
     concat (map (\<lambda>s'. if fst s < fst s' \<and> fst s' \<le> length t then ms (Star a) t s' else [])
                 (ms a t (reset a s))) @ [s]"
| "ms (Upto 0 a) t s = [s]"
| "ms (Upto (Suc n) a) t s =
     concat (map (\<lambda>s'. if fst s < fst s' then ms (Upto n a) t s' else [])
                 (ms a t (reset a s))) @ [s]"
| "ms (Group k a) t s =
     map (\<lambda>s'. (fst s', (snd s')(k \<mapsto> (fst s, fst s')))) (ms a t s)"
  by pat_completeness auto
termination
  by (relation "measures [\<lambda>(r, t, s). rsize r, \<lambda>(r, t, s). length t - fst s]") auto

lemmas ms_Star = ms.simps(6)

declare ms.simps(6) [simp del]

text \<open>
  A match object: \<^verbatim>\<open>match.index\<close>, the end of \<^verbatim>\<open>match[0]\<close> (which a global pattern
  stores in \<^verbatim>\<open>lastIndex\<close>) and the captures.
\<close>

record rmatch =
  m_index :: nat
  m_end :: nat
  m_caps :: caps

definition match_at :: "regex \<Rightarrow> jstring \<Rightarrow> nat \<Rightarrow> rmatch option" where
  "match_at re t i =
     (case ms re t (i, (\<lambda>k. None)) of
        [] \<Rightarrow> None
      | s # _ \<Rightarrow> Some \<lparr>m_index = i, m_end = fst s, m_caps = snd s\<rparr>)"

text \<open>
  \<^verbatim>\<open>regex.exec(t)\<close> with \<^verbatim>\<open>lastIndex = i\<close> (RegExpBuiltinExec): the start positions
  \<open>i, i + 1, \<dots>, length t\<close> are tried in turn; \<open>None\<close> is \<^verbatim>\<open>null\<close>.
\<close>

function exec_from :: "regex \<Rightarrow> jstring \<Rightarrow> nat \<Rightarrow> rmatch option" where
  "exec_from re t i =
     (if length t < i then None
      else case match_at re t i of
             Some m \<Rightarrow> Some m
           | None \<Rightarrow> exec_from re t (i + 1))"
  by pat_completeness auto
termination
  by (relation "measure (\<lambda>(re, t, i). Suc (length t) - i)") auto

declare exec_from.simps [simp del]

text \<open>\<^verbatim>\<open>match[0]\<close>, \<^verbatim>\<open>match[k]\<close> (\<open>None\<close> is \<^verbatim>\<open>undefined\<close>) and \<^verbatim>\<open>regex.test(s)\<close>
  for a pattern without the \<^verbatim>\<open>g\<close> flag.\<close>

definition matched :: "jstring \<Rightarrow> rmatch \<Rightarrow> jstring" where
  "matched t m = substring t (m_index m) (m_end m)"

definition capture :: "jstring \<Rightarrow> rmatch \<Rightarrow> nat \<Rightarrow> jstring option" where
  "capture t m k = map_option (\<lambda>(a, b). substring t a b) (m_caps m k)"

definition test :: "regex \<Rightarrow> jstring \<Rightarrow> bool" where
  "test re s = (exec_from re s 0 \<noteq> None)"

subsection \<open>Pattern syntax\<close>

text \<open>
  Under the \<^verbatim>\<open>i\<close> flag (without \<^verbatim>\<open>u\<close>) two code units match when their Canonicalize
  images agree: the upper-case mapping of a single code unit, except that a unit above 127
  is never mapped into ASCII. \<open>canon\<close> is that mapping on the letters that occur in the
  patterns of the source (the ASCII letters, four Latin-1 letters and the precomposed
  Vietnamese letters, each one above its capital); no other code unit has the same image as
  one of these, so on every other unit the identity gives the same comparisons.
\<close>

definition canon :: "cu \<Rightarrow> cu" where
  "canon c =
     (if 97 \<le> c \<and> c \<le> 122 then c - 32
      else if c \<in> {224, 236, 237, 244} then c - 32
      else if c \<in> {273, 417, 432, 7847, 7871, 7873, 7875, 7879, 7891, 7899, 7909} then c - 1
      else c)"

definition ci_eq :: "cu \<Rightarrow> cu \<Rightarrow> bool" where
  "ci_eq p x \<longleftrightarrow> canon x = canon p"

definition ci_mem :: "jstring \<Rightarrow> cu \<Rightarrow> bool" where
  "ci_mem cs x \<longleftrightarrow> canon x \<in> set (map canon cs)"

text \<open>A literal character, a class and a literal word under the \<^verbatim>\<open>i\<close> flag; an
  alternation \<^verbatim>\<open>a|b|c\<close>; \<^verbatim>\<open>a+\<close> and \<^verbatim>\<open>a?\<close>.\<close>

definition ichr :: "cu \<Rightarrow> regex" where
  "ichr p = Atom (ci_eq p)"

definition icls :: "jstring \<Rightarrow> regex" where
  "icls cs = Atom (ci_mem cs)"

fun lit :: "jstring \<Rightarrow> regex" where
  "lit [] = Eps"
| "lit [c] = ichr c"
| "lit (c # cs) = Seq (ichr c) (lit cs)"

fun alts :: "regex list \<Rightarrow> regex" where
  "alts [] = Eps"
| "alts [a] = a"
| "alts (a # as) = Alt a (alts as)"

definition Plus :: "regex \<Rightarrow> regex" where
  "Plus a = Seq a (Star a)"

definition Opt :: "regex \<Rightarrow> regex" where
  "Opt a = Upto 1 a"

text \<open>The classes \<^verbatim>\<open>\n\<close>, \<^verbatim>\<open>[ \t]\<close>, \<^verbatim>\<open>\d\<close>, \<^verbatim>\<open>[:\-\.]\<close>, \<^verbatim>\<open>[:\-\.\s]\<close> and
  \<^verbatim>\<open>[^\n]\<close>; none of their members has a case variant.\<close>

definition is_nl :: "cu \<Rightarrow> bool" where
  "is_nl x \<longleftrightarrow> x = 10"

definition is_blank :: "cu \<Rightarrow> bool" where
  "is_blank x \<longleftrightarrow> x = 32 \<or> x = 9"

definition is_digit :: "cu \<Rightarrow> bool" where
  "is_digit x \<longleftrightarrow> 48 \<le> x \<and> x \<le> 57"

definition is_sep :: "cu \<Rightarrow> bool" where
  "is_sep x \<longleftrightarrow> x = 58 \<or> x = 45 \<or> x = 46"

definition is_sepws :: "cu \<Rightarrow> bool" where
  "is_sepws x \<longleftrightarrow> x = 58 \<or> x = 45 \<or> x = 46 \<or> is_ws x"

definition not_nl :: "cu \<Rightarrow> bool" where
  "not_nl x \<longleftrightarrow> x \<noteq> 10"

section \<open>The chapter splitter\<close>

text \<open>
  \<^verbatim>\<open>splitIntoChapters\<close> exists in two versions in the repository: the current one
  (``optimized: single combined regex, no yield delay'') scans the text once with
  \<^verbatim>\<open>chapterRegex\<close>; the original one scans it with the two patterns of
  \<^verbatim>\<open>chapterPatterns\<close>, one after the other, and merges their matches. Both are embedded.

  The heading keywords, by code units: \<open>kw_Chuong\<close> (C h U+01B0 U+01A1 n g),
  \<open>kw_Hoi\<close> (H U+1ED3 i), \<open>kw_Quyen\<close> (Q u y U+1EC3 n), \<open>kw_Phan\<close> (P h U+1EA7 n),
  \<open>kw_Tiet\<close> (T i U+1EBF t), \<open>kw_Muc\<close> (M U+1EE5 c), and the ASCII words Chapter,
  Book and Part.
\<close>

definition kw_Chuong :: jstring where "kw_Chuong = [67, 104, 432, 417, 110, 103]"
definition kw_Chapter :: jstring where "kw_Chapter = asc ''Chapter''"
definition kw_Hoi :: jstring where "kw_Hoi = [72, 7891, 105]"
definition kw_Quyen :: jstring where "kw_Quyen = [81, 117, 121, 7875, 110]"
definition kw_Book :: jstring where "kw_Book = asc ''Book''"
definition kw_Phan :: jstring where "kw_Phan = [80, 104, 7847, 110]"
definition kw_Tiet :: jstring where "kw_Tiet = [84, 105, 7871, 116]"
definition kw_Muc :: jstring where "kw_Muc = [77, 7909, 99]"
definition kw_Part :: jstring where "kw_Part = asc ''Part''"

text \<open>
  Every heading pattern of the source has the shape
  \<^verbatim>\<open>/(?:^|\n)[ \t]*(?:K1|K2|...)[ \t]*[:\-\.]?[ \t]*(\d+|[IVXLCDM]+)(?:[ \t]*[:\-\.\s][ \t]*([^\n]{0,100}))?/gi\<close>
  and differs only in its keyword list. \<open>heading_tail\<close> is the part after the keyword.
\<close>

definition heading_tail :: regex where
  "heading_tail =
     Seq (Star (Atom is_blank))
    (Seq (Opt (Atom is_sep))
    (Seq (Star (Atom is_blank))
    (Seq (Group 1 (Alt (Plus (Atom is_digit)) (Plus (icls (asc ''IVXLCDM'')))))
         (Opt (Seq (Star (Atom is_blank))
              (Seq (Atom is_sepws)
              (Seq (Star (Atom is_blank))
                   (Group 2 (Upto 100 (Atom not_nl)))))))))) "

definition heading :: "jstring list \<Rightarrow> regex" where
  "heading kws =
     Seq (Alt Bol (Atom is_nl))
    (Seq (Star (Atom is_blank))
    (Seq (alts (map lit kws)) heading_tail))"

text \<open>The combined pattern of the current version, and the two patterns of the original.\<close>

definition chapterRegex :: regex where
  "chapterRegex =
     heading [kw_Chuong, kw_Chapter, kw_Hoi, kw_Quyen, kw_Book, kw_Phan, kw_Tiet, kw_Muc, kw_Part]"

definition chapterPatterns :: "regex list" where
  "chapterPatterns =
     [heading [kw_Chuong, kw_Chapter, kw_Hoi, kw_Quyen, kw_Book],
      heading [kw_Phan, kw_Tiet, kw_Muc, kw_Part]]"

text \<open>
  \<^verbatim>\<open>falsePositivePattern\<close> is \<^verbatim>\<open>/^[ \t]*(?:P1|...|P8)/i\<close>, where each phrase is a keyword,
  a space and a second word; \<open>keywordPattern\<close> is the anonymous pattern
  \<^verbatim>\<open>/^(K1|...|K9)/i\<close> that recovers the keyword from the trimmed match.
\<close>

definition falsePositivePattern :: regex where
  "falsePositivePattern =
     Seq Bol (Seq (Star (Atom is_blank)) (alts (map lit
       [kw_Chuong @ [32, 116, 114, 236, 110, 104],
        kw_Chuong @ [32, 109, 7909, 99],
        kw_Phan @ [32, 108, 7899, 110],
        kw_Phan @ [32, 273, 244, 110, 103],
        kw_Phan @ [32, 110, 224, 111],
        kw_Phan @ [32, 110, 104, 105, 7873, 117],
        kw_Tiet @ [32, 107, 104, 237],
        kw_Tiet @ [32, 107, 105, 7879, 109]])))"

definition keywordPattern :: regex where
  "keywordPattern =
     Seq Bol (Group 1 (alts (map lit
       [kw_Chuong, kw_Chapter, kw_Hoi, kw_Phan, kw_Quyen, kw_Tiet, kw_Muc, kw_Book, kw_Part])))"


text \<open>
  Every failure of the importer is a thrown \<^verbatim>\<open>Error\<close>: \<open>Aborted\<close> is
  \<^verbatim>\<open>new Error('Aborted')\<close>, \<open>InvalidEpub\<close> and \<open>EmptyEpub\<close> are the errors
  \<^verbatim>\<open>parseEpub\<close> raises itself, and \<open>LibraryError n\<close> is an exception or rejection that
  comes out of a library call (pdf.js, JSZip, \<^verbatim>\<open>decodeURIComponent\<close>).
\<close>

datatype error = Aborted | InvalidEpub | EmptyEpub | LibraryError nat

text \<open>
  The \<^verbatim>\<open>ChapterMatch\<close> interface of the source (\<^verbatim>\<open>index\<close>, \<^verbatim>\<open>matchStart\<close>,
  \<^verbatim>\<open>title\<close>) and the chapter objects \<^verbatim>\<open>{ title, content }\<close> it returns.
\<close>

record ChapterMatch =
  cm_index :: nat
  cm_matchStart :: nat
  cm_title :: jstring

record ChapterDraft =
  title :: jstring
  content :: jstring

text \<open>
  The two fixed titles of the source: \<open>title_content\<close> is the literal of the single
  fallback chapter (N U+1ED9 i, space, d u n g: Vietnamese for ``content'') and
  \<open>title_foreword\<close> the literal of the prologue chapter (M U+1EDF, space, U+0111 U+1EA7 u:
  Vietnamese for ``opening'', ``foreword'').
\<close>

definition title_content :: jstring where
  "title_content = [78, 7897, 105, 32, 100, 117, 110, 103]"

definition title_foreword :: jstring where
  "title_foreword = [77, 7903, 32, 273, 7847, 117]"

text \<open>\<^verbatim>\<open>fullMatch.replace(/^[\n\r]+/, '')\<close> and \<^verbatim>\<open>chapterSubtitle.match(/[,\.!?;]$/)\<close>.\<close>

definition strip_newlines :: "jstring \<Rightarrow> jstring" where
  "strip_newlines s = dropWhile (\<lambda>x. x = 10 \<or> x = 13) s"

definition sentence_end :: "jstring \<Rightarrow> bool" where
  "sentence_end s \<longleftrightarrow> s \<noteq> [] \<and> last s \<in> {44, 46, 33, 63, 59}"

text \<open>
  The body of the \<^verbatim>\<open>while\<close> loop of the current version for one match, from
  \<^verbatim>\<open>const fullMatch = match[0]\<close> to \<^verbatim>\<open>allMatches.push\<close>; \<open>None\<close> is a
  \<^verbatim>\<open>continue\<close>.
\<close>

definition build_match :: "jstring \<Rightarrow> rmatch \<Rightarrow> ChapterMatch option" where
  "build_match text m =
     (let fullMatch = matched text m;
          trimmedMatch = trim (strip_newlines fullMatch)
      in if test falsePositivePattern trimmedMatch then None
         else if length trimmedMatch = 0 then None
         else
           let chapterNumber = (case capture text m 1 of None \<Rightarrow> asc ''undefined'' | Some g \<Rightarrow> g);
               chapterSubtitle = (case capture text m 2 of None \<Rightarrow> [] | Some g \<Rightarrow> trim g);
               keyword = (case exec_from keywordPattern trimmedMatch 0 of
                            None \<Rightarrow> []
                          | Some km \<Rightarrow> (case capture trimmedMatch km 1 of None \<Rightarrow> [] | Some g \<Rightarrow> g));
               title0 = keyword @ [32] @ chapterNumber;
               title1 = (if chapterSubtitle \<noteq> [] \<and> \<not> sentence_end chapterSubtitle
                            \<and> length chapterSubtitle \<le> 80
                         then keyword @ [32] @ chapterNumber @ [58, 32] @ chapterSubtitle
                         else title0);
               leadingNewlineLen = length fullMatch - length (strip_newlines fullMatch);
               matchStart = m_index m + leadingNewlineLen;
               contentStart = (case indexOf text 10 matchStart of
                                 Some lineEndIndex \<Rightarrow> lineEndIndex + 1
                               | None \<Rightarrow> m_index m + length fullMatch)
           in Some \<lparr>cm_index = contentStart, cm_matchStart = matchStart, cm_title = trim title1\<rparr>)"

lemma match_at_bound: "match_at re t i = Some m \<Longrightarrow> m_index m = i"
  by (auto simp: match_at_def split: list.splits)

lemma exec_from_bound: "exec_from re t i = Some m \<Longrightarrow> i \<le> m_index m \<and> m_index m \<le> length t"
proof (induction re t i rule: exec_from.induct)
  case (1 re t i)
  show ?case
  proof (cases "match_at re t i")
    case None
    with 1 show ?thesis by (auto simp: exec_from.simps [of re t i] split: if_splits)
  next
    case (Some m')
    with 1 show ?thesis by (auto simp: exec_from.simps [of re t i] split: if_splits dest: match_at_bound)
  qed
qed

text \<open>The same loop body in the original version (the subtitle test is a nested \<^verbatim>\<open>if\<close>).\<close>

definition build_match_orig :: "jstring \<Rightarrow> rmatch \<Rightarrow> ChapterMatch option" where
  "build_match_orig text m =
     (let fullMatch = matched text m;
          trimmedMatch = trim (strip_newlines fullMatch)
      in if test falsePositivePattern trimmedMatch then None
         else if length trimmedMatch = 0 then None
         else
           let chapterNumber = (case capture text m 1 of None \<Rightarrow> asc ''undefined'' | Some g \<Rightarrow> g);
               chapterSubtitle = (case capture text m 2 of None \<Rightarrow> [] | Some g \<Rightarrow> trim g);
               keyword = (case exec_from keywordPattern trimmedMatch 0 of
                            None \<Rightarrow> []
                          | Some km \<Rightarrow> (case capture trimmedMatch km 1 of None \<Rightarrow> [] | Some g \<Rightarrow> g));
               title0 = keyword @ [32] @ chapterNumber;
               title1 = (if chapterSubtitle \<noteq> [] \<and> \<not> sentence_end chapterSubtitle
                         then (if length chapterSubtitle \<le> 80
                               then keyword @ [32] @ chapterNumber @ [58, 32] @ chapterSubtitle
                               else title0)
                         else title0);
               leadingNewlineLen = length fullMatch - length (strip_newlines fullMatch);
               matchStart = m_index m + leadingNewlineLen;
               lineEndIndex = indexOf text 10 matchStart;
               contentStart = (case lineEndIndex of
                                 Some l \<Rightarrow> l + 1
                               | None \<Rightarrow> m_index m + length fullMatch)
           in Some \<lparr>cm_index = contentStart, cm_matchStart = matchStart, cm_title = trim title1\<rparr>)"

text \<open>
  \<^verbatim>\<open>while ((match = regex.exec(text)) !== null) { if (signal?.aborted) throw ...; body }\<close>.
  The loop has no \<^verbatim>\<open>await\<close>, so the signal cannot change while it runs: \<open>aborted\<close> is
  its value. A match of length zero would leave \<^verbatim>\<open>lastIndex\<close> where it is and the loop
  would never end: that is the result \<open>None\<close>.
\<close>

function scan_headings ::
  "(jstring \<Rightarrow> rmatch \<Rightarrow> ChapterMatch option) \<Rightarrow> regex \<Rightarrow> bool \<Rightarrow> jstring \<Rightarrow> nat
     \<Rightarrow> ChapterMatch list \<Rightarrow> (error + ChapterMatch list) option" where
  "scan_headings build re aborted text lastIndex allMatches =
     (case exec_from re text lastIndex of
        None \<Rightarrow> Some (Inr allMatches)
      | Some m \<Rightarrow>
          if aborted then Some (Inl Aborted)
          else if m_end m \<le> m_index m then None
          else scan_headings build re aborted text (m_end m)
                 (case build text m of None \<Rightarrow> allMatches | Some c \<Rightarrow> allMatches @ [c]))"
  by pat_completeness auto
termination
  apply (relation "measure (\<lambda>(build, re, aborted, text, lastIndex, acc). Suc (length text) - lastIndex)")
   apply simp
  apply (auto dest!: exec_from_bound)
  done

declare scan_headings.simps [simp del]

text \<open>
  \<^verbatim>\<open>Array.from(new Map(allMatches.map(m => [m.matchStart, m])).values()).sort(...)\<close>: a
  \<^verbatim>\<open>Map\<close> keeps the position of the first insertion of a key and the value of the last;
  the sort is stable and ascending in \<^verbatim>\<open>matchStart\<close>.
\<close>

fun map_set :: "(nat \<times> 'a) list \<Rightarrow> nat \<Rightarrow> 'a \<Rightarrow> (nat \<times> 'a) list" where
  "map_set [] k v = [(k, v)]"
| "map_set ((k', v') # es) k v = (if k' = k then (k, v) # es else (k', v') # map_set es k v)"

definition uniqueMatches :: "ChapterMatch list \<Rightarrow> ChapterMatch list" where
  "uniqueMatches allMatches =
     sort_key cm_matchStart
       (map snd (fold (\<lambda>m es. map_set es (cm_matchStart m) m) allMatches []))"

text \<open>The prologue block, the \<^verbatim>\<open>endIndex\<close> of iteration \<open>i\<close> and the chapter pushed by
  iteration \<open>i\<close> of the slicing loop.\<close>

definition prologue_of :: "jstring \<Rightarrow> ChapterMatch list \<Rightarrow> ChapterDraft list" where
  "prologue_of text um =
     (if cm_matchStart (um ! 0) > 0
      then (let prologue = trim (substring text 0 (cm_matchStart (um ! 0)))
            in if length prologue > 0 then [\<lparr>title = title_foreword, content = prologue\<rparr>] else [])
      else [])"

definition endIndex_at :: "jstring \<Rightarrow> ChapterMatch list \<Rightarrow> nat \<Rightarrow> nat" where
  "endIndex_at text um i =
     (if i < length um - 1 then cm_matchStart (um ! (i + 1)) else length text)"

definition draft_at :: "jstring \<Rightarrow> ChapterMatch list \<Rightarrow> nat \<Rightarrow> ChapterDraft" where
  "draft_at text um i =
     \<lparr>title = cm_title (um ! i),
      content = trim (substring text (cm_index (um ! i)) (endIndex_at text um i))\<rparr>"

function slice_loop ::
  "bool \<Rightarrow> jstring \<Rightarrow> ChapterMatch list \<Rightarrow> nat \<Rightarrow> ChapterDraft list \<Rightarrow> error + ChapterDraft list" where
  "slice_loop aborted text um i chapters =
     (if i < length um then
        (if aborted then Inl Aborted
         else slice_loop aborted text um (Suc i) (chapters @ [draft_at text um i]))
      else Inr chapters)"
  by pat_completeness auto
termination
  by (relation "measure (\<lambda>(aborted, text, um, i, chapters). length um - i)") auto

declare slice_loop.simps [simp del]

text \<open>The current version (the progress callbacks are not part of the result).\<close>

definition splitIntoChapters :: "bool \<Rightarrow> jstring \<Rightarrow> (error + ChapterDraft list) option" where
  "splitIntoChapters aborted text =
     (case scan_headings build_match chapterRegex aborted text 0 [] of
        None \<Rightarrow> None
      | Some (Inl e) \<Rightarrow> Some (Inl e)
      | Some (Inr allMatches) \<Rightarrow>
          if length allMatches = 0 then Some (Inr [\<lparr>title = title_content, content = text\<rparr>])
          else
            let um = uniqueMatches allMatches
            in Some (slice_loop aborted text um 0 (prologue_of text um)))"


subsection \<open>The original version\<close>

text \<open>
  \<^verbatim>\<open>for (const regex of chapterPatterns) { regex.lastIndex = 0; while ... }\<close>. The slicing
  loop of the original awaits a timer after every fiftieth chapter, so the signal may change
  there: \<open>signal n\<close> is the value of \<^verbatim>\<open>signal.aborted\<close> after \<open>n\<close> of these awaits.
\<close>

fun scan_patterns ::
  "regex list \<Rightarrow> bool \<Rightarrow> jstring \<Rightarrow> ChapterMatch list \<Rightarrow> (error + ChapterMatch list) option" where
  "scan_patterns [] aborted text allMatches = Some (Inr allMatches)"
| "scan_patterns (regex # rest) aborted text allMatches =
     (case scan_headings build_match_orig regex aborted text 0 allMatches of
        None \<Rightarrow> None
      | Some (Inl e) \<Rightarrow> Some (Inl e)
      | Some (Inr allMatches') \<Rightarrow> scan_patterns rest aborted text allMatches')"

function slice_loop_orig ::
  "(nat \<Rightarrow> bool) \<Rightarrow> nat \<Rightarrow> jstring \<Rightarrow> ChapterMatch list \<Rightarrow> nat \<Rightarrow> ChapterDraft list
     \<Rightarrow> error + ChapterDraft list" where
  "slice_loop_orig signal clock text um i chapters =
     (if i < length um then
        (if signal clock then Inl Aborted
         else slice_loop_orig signal (if i mod 50 = 0 then clock + 1 else clock) text um (Suc i)
                (chapters @ [draft_at text um i]))
      else Inr chapters)"
  by pat_completeness auto
termination
  by (relation "measure (\<lambda>(signal, clock, text, um, i, chapters). length um - i)") auto

declare slice_loop_orig.simps [simp del]

definition splitIntoChapters_orig :: "(nat \<Rightarrow> bool) \<Rightarrow> jstring \<Rightarrow> (error + ChapterDraft list) option" where
  "splitIntoChapters_orig signal text =
     (case scan_patterns chapterPatterns (signal 0) text [] of
        None \<Rightarrow> None
      | Some (Inl e) \<Rightarrow> Some (Inl e)
      | Some (Inr allMatches) \<Rightarrow>
          if length allMatches = 0 then Some (Inr [\<lparr>title = title_content, content = text\<rparr>])
          else
            let um = uniqueMatches allMatches
            in Some (slice_loop_orig signal 0 text um 0 (prologue_of text um)))"

section \<open>Facts about the matcher\<close>

text \<open>Unfolding a bounded repetition whose bound is a numeral, for evaluation.\<close>

lemma ms_Upto_numeral:
  "ms (Upto (numeral k) a) t s =
     concat (map (\<lambda>s'. if fst s < fst s' then ms (Upto (pred_numeral k) a) t s' else [])
                 (ms a t (reset a s))) @ [s]"
  by (simp add: numeral_eq_Suc)

text \<open>The matcher never moves backwards and never leaves the input.\<close>

lemma reset_fst [simp]: "fst (reset a s) = fst s"
  by (simp add: reset_def)

lemma ms_mono:
  "s' \<in> set (ms r t s) \<Longrightarrow> fst s \<le> fst s' \<and> (fst s \<le> length t \<longrightarrow> fst s' \<le> length t)"
proof (induction r t s arbitrary: s' rule: ms.induct)
  case (4 a b t s)
  then obtain s1 where s1: "s1 \<in> set (ms a t s)" and s2: "s' \<in> set (ms b t s1)"
    by auto
  from "4.IH"(1) [OF s1] "4.IH"(2) [OF s1 s2] show ?case by auto
next
  case (6 a t s)
  show ?case
  proof (cases "s' = s")
    case True
    then show ?thesis by simp
  next
    case False
    with "6.prems" [unfolded ms_Star [of a t s]] obtain s1 where s1: "s1 \<in> set (ms a t (reset a s))"
      and g: "fst s < fst s1" "fst s1 \<le> length t" and s2: "s' \<in> set (ms (Star a) t s1)"
      by (auto split: if_splits)
    from "6.IH"(2) [OF s1 _ s2] g show ?thesis by auto
  qed
next
  case (8 n a t s)
  show ?case
  proof (cases "s' = s")
    case True
    then show ?thesis by simp
  next
    case False
    with "8.prems" obtain s1 where s1: "s1 \<in> set (ms a t (reset a s))"
      and g: "fst s < fst s1" and s2: "s' \<in> set (ms (Upto n a) t s1)"
      by (auto split: if_splits)
    from "8.IH"(1) [OF s1] "8.IH"(2) [OF s1 g s2] g show ?thesis by auto
  qed
qed (auto split: if_splits)

lemma match_at_facts:
  assumes "match_at re t i = Some m"
  shows "m_index m = i" "i \<le> m_end m" "i \<le> length t \<Longrightarrow> m_end m \<le> length t"
    "(m_end m, m_caps m) \<in> set (ms re t (i, \<lambda>k. None))"
proof -
  from assms obtain s rest where s: "ms re t (i, \<lambda>k. None) = s # rest"
    and m: "m = \<lparr>m_index = i, m_end = fst s, m_caps = snd s\<rparr>"
    by (auto simp: match_at_def split: list.splits)
  have mem: "s \<in> set (ms re t (i, \<lambda>k. None))" using s by simp
  from ms_mono [OF mem] m show "m_index m = i" "i \<le> m_end m" "i \<le> length t \<Longrightarrow> m_end m \<le> length t"
    by auto
  from mem m show "(m_end m, m_caps m) \<in> set (ms re t (i, \<lambda>k. None))" by simp
qed

lemma exec_from_match:
  "exec_from re t i = Some m \<Longrightarrow> \<exists>j\<ge>i. j \<le> length t \<and> match_at re t j = Some m"
proof (induction re t i rule: exec_from.induct)
  case (1 re t i)
  show ?case
  proof (cases "match_at re t i")
    case None
    with 1 obtain j where "j \<ge> i + 1" "j \<le> length t" "match_at re t j = Some m"
      by (auto simp: exec_from.simps [of re t i] split: if_splits)
    then show ?thesis by (intro exI [of _ j]) auto
  next
    case (Some m')
    with "1.prems" have "m' = m" "i \<le> length t"
      by (auto simp: exec_from.simps [of re t i] split: if_splits)
    with Some show ?thesis by auto
  qed
qed

lemma ms_Seq_mem:
  "s' \<in> set (ms (Seq a b) t s) \<longleftrightarrow> (\<exists>s1 \<in> set (ms a t s). s' \<in> set (ms b t s1))"
  by auto

lemma ms_lit_mem:
  "s' \<in> set (ms (lit k) t s) \<Longrightarrow> k \<noteq> [] \<Longrightarrow>
     fst s < length t \<and> ci_eq (hd k) (t ! fst s) \<and> fst s < fst s'"
proof (induction k arbitrary: s rule: lit.induct)
  case 1
  then show ?case by simp
next
  case (2 c)
  then show ?case by (auto simp: ichr_def split: if_splits)
next
  case (3 c d cs)
  from "3.prems" obtain s1 where s1: "s1 \<in> set (ms (ichr c) t s)" and s2: "s' \<in> set (ms (lit (d # cs)) t s1)"
    by auto
  from s1 have a: "fst s < length t" "ci_eq c (t ! fst s)" "fst s < fst s1"
    by (auto simp: ichr_def split: if_splits)
  from ms_mono [OF s2] a show ?case by auto
qed

lemma ms_alts_mem:
  "s' \<in> set (ms (alts rs) t s) \<Longrightarrow> rs \<noteq> [] \<Longrightarrow> \<exists>r \<in> set rs. s' \<in> set (ms r t s)"
  by (induction rs rule: alts.induct) auto

lemma ms_Star_Atom_mem:
  "s' \<in> set (ms (Star (Atom p)) t s) \<Longrightarrow>
     fst s' = fst s \<or> (fst s < length t \<and> p (t ! fst s) \<and> fst s < fst s')"
proof -
  assume a: "s' \<in> set (ms (Star (Atom p)) t s)"
  show ?thesis
  proof (cases "s' = s")
    case True
    then show ?thesis by simp
  next
    case False
    with a [unfolded ms_Star [of "Atom p" t s]] obtain s1 where
      s1: "s1 \<in> set (ms (Atom p) t (reset (Atom p) s))" and g: "fst s < fst s1"
      and s2: "s' \<in> set (ms (Star (Atom p)) t s1)"
      by (auto split: if_splits)
    from s1 have "fst s < length t" "p (t ! fst s)" by (auto split: if_splits)
    with ms_mono [OF s2] g show ?thesis by auto
  qed
qed

definition good_kws :: "jstring list \<Rightarrow> bool" where
  "good_kws kws \<longleftrightarrow> kws \<noteq> [] \<and> list_all (\<lambda>k. k \<noteq> [] \<and> canon (hd k) \<noteq> 10 \<and> canon (hd k) \<noteq> 13) kws"

lemma canon_nl: "canon x = canon p \<Longrightarrow> canon p \<noteq> 10 \<Longrightarrow> canon p \<noteq> 13 \<Longrightarrow> x \<noteq> 10 \<and> x \<noteq> 13"
  by (auto simp: canon_def)

lemma heading_tail_start:
  assumes "s' \<in> set (ms (Seq (Star (Atom is_blank)) (Seq (alts (map lit kws)) rest)) t s)"
    and "good_kws kws"
  shows "fst s < length t \<and> t ! fst s \<noteq> 10 \<and> t ! fst s \<noteq> 13 \<and> fst s < fst s'"
proof -
  from assms(1) obtain s1 s2 where s1: "s1 \<in> set (ms (Star (Atom is_blank)) t s)"
    and s2: "s2 \<in> set (ms (alts (map lit kws)) t s1)" and s3: "s' \<in> set (ms rest t s2)"
    by auto
  from ms_alts_mem [OF s2] assms(2) obtain k where k: "k \<in> set kws" and sk: "s2 \<in> set (ms (lit k) t s1)"
    by (auto simp: good_kws_def)
  from k assms(2) have kk: "k \<noteq> []" "canon (hd k) \<noteq> 10" "canon (hd k) \<noteq> 13"
    by (auto simp: good_kws_def list_all_iff)
  from ms_lit_mem [OF sk kk(1)] have l: "fst s1 < length t" "ci_eq (hd k) (t ! fst s1)" "fst s1 < fst s2"
    by auto
  from l(2) kk have nn: "t ! fst s1 \<noteq> 10 \<and> t ! fst s1 \<noteq> 13"
    using canon_nl [of "t ! fst s1" "hd k"] by (simp add: ci_eq_def)
  from ms_mono [OF s3] have m3: "fst s2 \<le> fst s'" by simp
  from ms_mono [OF s1] have m1: "fst s \<le> fst s1" by simp
  from ms_Star_Atom_mem [OF s1] show ?thesis
  proof
    assume "fst s1 = fst s"
    with l nn m3 show ?thesis by auto
  next
    assume "fst s < length t \<and> is_blank (t ! fst s) \<and> fst s < fst s1"
    with l m3 show ?thesis by (auto simp: is_blank_def)
  qed
qed

lemma heading_start:
  assumes "s' \<in> set (ms (heading kws) t (i, c))" and "good_kws kws"
  shows "\<exists>j. (i = 0 \<and> j = 0 \<or> i < length t \<and> t ! i = 10 \<and> j = i + 1)
           \<and> j < length t \<and> t ! j \<noteq> 10 \<and> t ! j \<noteq> 13 \<and> j < fst s'"
proof -
  let ?R = "Seq (Star (Atom is_blank)) (Seq (alts (map lit kws)) heading_tail)"
  from assms(1) obtain s1 where s1: "s1 \<in> set (ms (Alt Bol (Atom is_nl)) t (i, c))"
    and s2: "s' \<in> set (ms ?R t s1)"
    unfolding heading_def ms_Seq_mem [of s' "Alt Bol (Atom is_nl)"] by blast
  from s1 have j: "i = 0 \<and> fst s1 = 0 \<or> i < length t \<and> t ! i = 10 \<and> fst s1 = i + 1"
    by (auto simp: is_nl_def split: if_splits)
  from heading_tail_start [OF s2 assms(2)] j show ?thesis
    by (intro exI [of _ "fst s1"]) auto
qed

section \<open>Facts about the splitter\<close>

lemma build_match_orig_eq: "build_match_orig = build_match"
  by (intro ext) (simp add: build_match_orig_def build_match_def Let_def)

lemma build_match_fields:
  assumes "build_match text m = Some c"
  shows "cm_matchStart c = m_index m + (length (matched text m) - length (strip_newlines (matched text m)))"
    and "cm_index c = (case indexOf text 10 (cm_matchStart c) of
                         Some l \<Rightarrow> l + 1 | None \<Rightarrow> m_index m + length (matched text m))"
    and "\<exists>x. cm_title c = trim x"
  using assms by (auto simp: build_match_def Let_def split: if_splits)

definition trimmed :: "jstring \<Rightarrow> bool" where
  "trimmed s \<longleftrightarrow> s = [] \<or> (\<not> is_ws (hd s) \<and> \<not> is_ws (last s))"

lemma last_dropWhile: "dropWhile P xs \<noteq> [] \<Longrightarrow> last (dropWhile P xs) = last xs"
  by (induction xs) (auto split: if_splits)

lemma trimmed_trim: "trimmed (trim s)"
proof -
  let ?u = "dropWhile is_ws s"
  let ?v = "dropWhile is_ws (rev ?u)"
  have t: "trim s = rev ?v" by (simp add: trim_def)
  show ?thesis
  proof (cases "?v = []")
    case True
    with t show ?thesis by (simp add: trimmed_def)
  next
    case False
    then have hv: "\<not> is_ws (hd ?v)" by (rule hd_dropWhile)
    from False have une: "?u \<noteq> []" by (auto dest: set_dropWhileD)
    then have hu: "\<not> is_ws (hd ?u)" by (rule hd_dropWhile)
    from False have "last ?v = last (rev ?u)" by (rule last_dropWhile)
    also from une have "\<dots> = hd ?u" by (simp add: last_rev)
    finally have lv: "\<not> is_ws (last ?v)" using hu by simp
    from False have "hd (rev ?v) = last ?v" "last (rev ?v) = hd ?v"
      by (simp_all add: hd_rev last_rev)
    with hv lv t show ?thesis by (simp add: trimmed_def)
  qed
qed

lemma trim_Nil_iff: "trim s = [] \<longleftrightarrow> list_all is_ws s"
proof
  assume "trim s = []"
  then have v: "dropWhile is_ws (rev (dropWhile is_ws s)) = []" by (simp add: trim_def)
  have "dropWhile is_ws s = []"
  proof (rule ccontr)
    assume ne: "dropWhile is_ws s \<noteq> []"
    then have "\<not> is_ws (hd (dropWhile is_ws s))" by (rule hd_dropWhile)
    moreover from ne have "hd (dropWhile is_ws s) \<in> set (rev (dropWhile is_ws s))" by simp
    ultimately show False using v by auto
  qed
  then show "list_all is_ws s" by (simp add: list_all_iff)
next
  assume "list_all is_ws s"
  then have "dropWhile is_ws s = []" by (simp add: list_all_iff)
  then show "trim s = []" unfolding trim_def by (auto dest: set_dropWhileD)
qed

lemma matched_eq:
  "m_index m \<le> m_end m \<Longrightarrow> m_end m \<le> length t \<Longrightarrow>
     matched t m = take (m_end m - m_index m) (drop (m_index m) t)"
  by (simp add: matched_def substring_def Let_def min_def max_def)

lemma dropWhile_Cons_nth:
  "dropWhile P xs = x # r \<Longrightarrow>
     length r < length xs \<and> xs ! (length xs - Suc (length r)) = x \<and> \<not> P x"
proof (induction xs)
  case Nil
  then show ?case by simp
next
  case (Cons y ys)
  show ?case
  proof (cases "P y")
    case True
    with Cons.prems have d: "dropWhile P ys = x # r" by simp
    from Cons.IH [OF d] have "length r < length ys" "ys ! (length ys - Suc (length r)) = x" "\<not> P x"
      by auto
    then show ?thesis by (simp add: Suc_diff_Suc)
  next
    case False
    with Cons.prems show ?thesis by auto
  qed
qed

lemma dropWhile_first:
  "k < length xs \<Longrightarrow> \<not> P (xs ! k) \<Longrightarrow>
     \<exists>x r. dropWhile P xs = x # r \<and> length r < length xs \<and> length xs - Suc (length r) \<le> k"
proof (induction xs arbitrary: k)
  case Nil
  then show ?case by simp
next
  case (Cons y ys)
  show ?case
  proof (cases "P y")
    case True
    with Cons.prems obtain k' where k': "k = Suc k'" by (cases k) auto
    with Cons.prems have "k' < length ys" "\<not> P (ys ! k')" by auto
    from Cons.IH [OF this] obtain x r where "dropWhile P ys = x # r" "length r < length ys"
      "length ys - Suc (length r) \<le> k'" by auto
    with True k' show ?thesis by (auto simp: Suc_diff_Suc)
  next
    case False
    then show ?thesis by auto
  qed
qed

lemma indexOf_Some:
  assumes "indexOf s c i = Some l"
  shows "i \<le> l" "l < length s" "s ! l = c"
proof -
  from assms obtain x r where d: "dropWhile (\<lambda>x. x \<noteq> c) (drop i s) = x # r"
    and l: "l = length s - Suc (length r)"
    by (auto simp: indexOf.simps split: list.splits)
  from dropWhile_Cons_nth [OF d] have f: "length r < length s - i"
    "drop i s ! (length s - i - Suc (length r)) = x" "x = c" by auto
  from f(1) l show "i \<le> l" "l < length s" by auto
  have "i + (length s - i - Suc (length r)) = l" using f(1) l by auto
  moreover have "drop i s ! (length s - i - Suc (length r)) = s ! (i + (length s - i - Suc (length r)))"
    using f(1) by (intro nth_drop) simp
  ultimately show "s ! l = c" using f(2,3) by simp
qed

lemma indexOf_le:
  assumes "i \<le> p" "p < length s" "s ! p = c"
  shows "\<exists>l. indexOf s c i = Some l \<and> l \<le> p"
proof -
  have "p - i < length (drop i s)" "\<not> (drop i s ! (p - i) \<noteq> c)" using assms by auto
  from dropWhile_first [of "p - i" "drop i s" "\<lambda>x. x \<noteq> c", OF this]
  obtain x r where "dropWhile (\<lambda>x. x \<noteq> c) (drop i s) = x # r" "length r < length s - i"
    "length s - i - Suc (length r) \<le> p - i" by auto
  with assms show ?thesis by (auto simp: indexOf.simps)
qed

definition good_cm :: "jstring \<Rightarrow> ChapterMatch \<Rightarrow> bool" where
  "good_cm text c \<longleftrightarrow>
     cm_matchStart c < cm_index c \<and> cm_index c \<le> length text \<and>
     (cm_matchStart c = 0 \<or> text ! (cm_matchStart c - 1) = 10) \<and>
     (case indexOf text 10 (cm_matchStart c) of None \<Rightarrow> True | Some l \<Rightarrow> cm_index c = l + 1) \<and>
     trimmed (cm_title c)"

lemma strip_newlines_keep: "xs \<noteq> [] \<Longrightarrow> hd xs \<noteq> 10 \<Longrightarrow> hd xs \<noteq> 13 \<Longrightarrow> strip_newlines xs = xs"
  by (cases xs) (auto simp: strip_newlines_def)

lemma heading_match_good:
  assumes m: "match_at (heading kws) text i = Some m" and kws: "good_kws kws"
    and i: "i \<le> length text" and c: "build_match text m = Some c"
  shows "good_cm text c" "m_index m < m_end m"
proof -
  from match_at_facts [OF m] i have mi: "m_index m = i" and e: "m_end m \<le> length text"
    and mem: "(m_end m, m_caps m) \<in> set (ms (heading kws) text (i, \<lambda>k. None))" by auto
  from heading_start [OF mem kws] obtain j where
    j: "i = 0 \<and> j = 0 \<or> i < length text \<and> text ! i = 10 \<and> j = i + 1"
    and jl: "j < length text" and jn: "text ! j \<noteq> 10" "text ! j \<noteq> 13" and je: "j < m_end m"
    by auto
  from j je mi show "m_index m < m_end m" by auto
  from j je mi e have fm: "matched text m = take (m_end m - i) (drop i text)"
    by (intro matched_eq [of m "text", unfolded mi]) auto
  have len: "length (matched text m) = m_end m - i" using fm e by simp
  have mst: "cm_matchStart c = j"
  proof -
    from j show ?thesis
    proof
      assume a: "i = 0 \<and> j = 0"
      with je jl jn fm have "matched text m \<noteq> []" "hd (matched text m) \<noteq> 10" "hd (matched text m) \<noteq> 13"
        by (auto simp: hd_conv_nth)
      then have "strip_newlines (matched text m) = matched text m" by (rule strip_newlines_keep)
      with build_match_fields(1) [OF c] mi a show ?thesis by simp
    next
      assume a: "i < length text \<and> text ! i = 10 \<and> j = i + 1"
      have d1: "drop i text = text ! i # drop (Suc i) text"
        using a Cons_nth_drop_Suc [of i "text"] by simp
      have d2: "drop (Suc i) text = text ! j # drop (Suc j) text"
        using a jl Cons_nth_drop_Suc [of j "text"] by simp
      from je a obtain n where n: "m_end m - i = Suc (Suc n)"
        by (metis Suc_eq_plus1 Suc_lessD less_imp_Suc_add add_Suc_right add_diff_cancel_left' add_Suc)
      have "matched text m = 10 # text ! j # take n (drop (Suc j) text)"
        unfolding fm n d1 using d2 a by simp
      then have "strip_newlines (matched text m) = text ! j # take n (drop (Suc j) text)"
        using jn by (simp add: strip_newlines_def)
      then have "length (strip_newlines (matched text m)) = m_end m - i - 1"
        using n e jl a by simp
      with build_match_fields(1) [OF c] mi a len n show ?thesis by simp
    qed
  qed
  have ix: "cm_index c = (case indexOf text 10 j of Some l \<Rightarrow> l + 1 | None \<Rightarrow> m_end m)"
    using build_match_fields(2) [OF c] mst mi len j je by (auto split: option.splits)
  have nl: "j = 0 \<or> text ! (j - 1) = 10" using j by auto
  have tt: "trimmed (cm_title c)" using build_match_fields(3) [OF c] trimmed_trim by auto
  show "good_cm text c"
  proof (cases "indexOf text 10 j")
    case None
    with ix mst je e nl tt show ?thesis by (simp add: good_cm_def)
  next
    case (Some l)
    from indexOf_Some [OF Some] ix mst nl tt Some show ?thesis by (simp add: good_cm_def)
  qed
qed

lemma heading_nonempty:
  assumes m: "match_at (heading kws) text i = Some m" and kws: "good_kws kws"
  shows "m_index m < m_end m"
proof -
  from match_at_facts [OF m] have mi: "m_index m = i"
    and mem: "(m_end m, m_caps m) \<in> set (ms (heading kws) text (i, \<lambda>k. None))" by auto
  from heading_start [OF mem kws] mi show ?thesis by auto
qed

lemma scan_headings_total:
  assumes "good_kws kws"
  shows "\<exists>r. scan_headings build (heading kws) aborted t i acc = Some r
           \<and> (\<not> aborted \<longrightarrow> (\<exists>cs. r = Inr cs))"
proof (induction build "heading kws" aborted t i acc rule: scan_headings.induct)
  case (1 build aborted t lastIndex allMatches)
  show ?case
  proof (cases "exec_from (heading kws) t lastIndex")
    case None
    then show ?thesis by (subst scan_headings.simps) simp
  next
    case (Some m)
    from exec_from_match [OF Some] obtain j where "match_at (heading kws) t j = Some m" by auto
    from heading_nonempty [OF this assms] have ne: "\<not> m_end m \<le> m_index m" by simp
    show ?thesis
    proof (cases aborted)
      case True
      with Some show ?thesis
        by (subst scan_headings.simps) simp
    next
      case False
      from "1.hyps" [OF Some False ne] Some False ne show ?thesis
        by (subst scan_headings.simps) simp
    qed
  qed
qed

lemma scan_headings_good:
  assumes "good_kws kws"
  shows "scan_headings build_match (heading kws) aborted t i acc = Some (Inr cs) \<Longrightarrow>
         list_all (good_cm t) acc \<Longrightarrow> list_all (good_cm t) cs"
proof (induction build_match "heading kws" aborted t i acc rule: scan_headings.induct)
  case (1 aborted t lastIndex allMatches)
  note p = "1.prems"(1) [unfolded scan_headings.simps [of build_match "heading kws" aborted t lastIndex allMatches]]
  show ?case
  proof (cases "exec_from (heading kws) t lastIndex")
    case None
    with p "1.prems"(2) show ?thesis by simp
  next
    case (Some m)
    from exec_from_match [OF Some] obtain j where j: "j \<le> length t" "match_at (heading kws) t j = Some m"
      by auto
    from heading_nonempty [OF j(2) assms] have ne: "\<not> m_end m \<le> m_index m" by simp
    from p Some have na: "\<not> aborted"
      by (auto split: if_splits)
    let ?acc = "case build_match t m of None \<Rightarrow> allMatches | Some c \<Rightarrow> allMatches @ [c]"
    have g: "list_all (good_cm t) ?acc"
      using "1.prems"(2) heading_match_good(1) [OF j(2) assms j(1)] by (auto split: option.splits)
    from p Some na ne have
      "scan_headings build_match (heading kws) aborted t (m_end m) ?acc = Some (Inr cs)"
      by simp
    from "1.hyps" [OF Some na ne this g] show ?thesis .
  qed
qed

lemma map_set_fst: "set (map fst (map_set es k v)) = insert k (set (map fst es))"
  by (induction es k v rule: map_set.induct) auto

lemma map_set_distinct: "distinct (map fst es) \<Longrightarrow> distinct (map fst (map_set es k v))"
proof (induction es k v rule: map_set.induct)
  case (1 k v)
  then show ?case by simp
next
  case (2 k' v' es k v)
  then show ?case using map_set_fst [of es k v] by auto
qed

lemma map_set_snd: "set (map_set es k v) \<subseteq> insert (k, v) (set es)"
  by (induction es k v rule: map_set.induct) auto

lemma map_set_nonempty: "map_set es k v \<noteq> []"
  by (induction es k v rule: map_set.induct) auto

definition entries_ok :: "ChapterMatch list \<Rightarrow> (nat \<times> ChapterMatch) list \<Rightarrow> bool" where
  "entries_ok cs es \<longleftrightarrow> distinct (map fst es) \<and> list_all (\<lambda>e. fst e = cm_matchStart (snd e) \<and> snd e \<in> set cs) es"

lemma fold_map_set_ok:
  "entries_ok cs es \<Longrightarrow> set xs \<subseteq> set cs \<Longrightarrow>
     entries_ok cs (fold (\<lambda>m es. map_set es (cm_matchStart m) m) xs es)"
proof (induction xs arbitrary: es)
  case Nil
  then show ?case by simp
next
  case (Cons x xs)
  have "entries_ok cs (map_set es (cm_matchStart x) x)"
    using Cons.prems map_set_distinct [of es "cm_matchStart x" x] map_set_snd [of es "cm_matchStart x" x]
    by (auto simp: entries_ok_def list_all_iff)
  with Cons show ?case by simp
qed

lemma fold_map_set_nonempty:
  "es \<noteq> [] \<or> xs \<noteq> [] \<Longrightarrow> fold (\<lambda>m es. map_set es (cm_matchStart m) m) xs es \<noteq> []"
  by (induction xs arbitrary: es) (auto simp: map_set_nonempty)

lemma uniqueMatches_facts:
  shows um_subset: "set (uniqueMatches cs) \<subseteq> set cs"
    and um_sorted: "sorted_wrt (<) (map cm_matchStart (uniqueMatches cs))"
    and um_nonempty: "cs \<noteq> [] \<Longrightarrow> uniqueMatches cs \<noteq> []"
proof -
  let ?es = "fold (\<lambda>m es. map_set es (cm_matchStart m) m) cs []"
  have ok: "entries_ok cs ?es" by (rule fold_map_set_ok) (simp_all add: entries_ok_def)
  then have keys: "map cm_matchStart (map snd ?es) = map fst ?es"
    by (auto simp: entries_ok_def list_all_iff)
  from ok show "set (uniqueMatches cs) \<subseteq> set cs"
    by (auto simp: uniqueMatches_def entries_ok_def list_all_iff)
  have "distinct (map cm_matchStart (map snd ?es))"
    unfolding keys using ok by (simp add: entries_ok_def)
  then have "distinct (map cm_matchStart (sort_key cm_matchStart (map snd ?es)))"
    unfolding distinct_map [of cm_matchStart] by simp
  then show "sorted_wrt (<) (map cm_matchStart (uniqueMatches cs))"
    unfolding uniqueMatches_def strict_sorted_iff by simp
  show "cs \<noteq> [] \<Longrightarrow> uniqueMatches cs \<noteq> []"
  proof -
    assume "cs \<noteq> []"
    then have "?es \<noteq> []" using fold_map_set_nonempty [of "[]" cs] by simp
    then have "length (uniqueMatches cs) \<noteq> 0" unfolding uniqueMatches_def by simp
    then show ?thesis by auto
  qed
qed

lemma substring_slice: "a \<le> b \<Longrightarrow> b \<le> length s \<Longrightarrow> substring s a b = take (b - a) (drop a s)"
  by (simp add: substring_def Let_def min_def max_def)

lemma slice_loop_map:
  "i \<le> length um \<Longrightarrow>
     slice_loop False t um i chs = Inr (chs @ map (draft_at t um) [i..<length um])"
proof (induction "length um - i" arbitrary: i chs)
  case 0
  then show ?case by (subst slice_loop.simps) simp
next
  case (Suc n)
  then have lt: "i < length um" and n: "n = length um - Suc i" by auto
  from Suc.hyps(1) [OF n, of "chs @ [draft_at t um i]"] lt show ?case
    by (subst slice_loop.simps) (simp add: upt_conv_Cons)
qed

lemma um_ordered:
  assumes g: "list_all (good_cm t) um" and s: "sorted_wrt (<) (map cm_matchStart um)"
    and i: "i < length um"
  shows "cm_index (um ! i) \<le> endIndex_at t um i" "endIndex_at t um i \<le> length t"
    "cm_matchStart (um ! i) < cm_index (um ! i)"
proof -
  from g i have ga: "good_cm t (um ! i)" by (simp add: list_all_length)
  then show "cm_matchStart (um ! i) < cm_index (um ! i)" by (simp add: good_cm_def)
  show "cm_index (um ! i) \<le> endIndex_at t um i" "endIndex_at t um i \<le> length t"
  proof -
    have e: "(i < length um - 1) = (Suc i < length um)" by auto
    have "cm_index (um ! i) \<le> endIndex_at t um i \<and> endIndex_at t um i \<le> length t"
    proof (cases "Suc i < length um")
      case True
      with g have gb: "good_cm t (um ! Suc i)" by (simp add: list_all_length)
      from s True have lt: "cm_matchStart (um ! i) < cm_matchStart (um ! Suc i)"
        using sorted_wrt_nth_less [of "(<)" "map cm_matchStart um" i "Suc i"] by simp
      let ?p = "cm_matchStart (um ! Suc i) - 1"
      from lt gb have p: "cm_matchStart (um ! i) \<le> ?p" "?p < length t" "t ! ?p = 10"
        by (auto simp: good_cm_def)
      from indexOf_le [OF p] obtain l where l: "indexOf t 10 (cm_matchStart (um ! i)) = Some l" "l \<le> ?p"
        by auto
      with ga have "cm_index (um ! i) = l + 1" by (simp add: good_cm_def)
      with l lt gb True show ?thesis unfolding endIndex_at_def e by (auto simp: good_cm_def)
    next
      case False
      with ga show ?thesis unfolding endIndex_at_def e by (simp add: good_cm_def)
    qed
    then show "cm_index (um ! i) \<le> endIndex_at t um i" "endIndex_at t um i \<le> length t" by auto
  qed
qed

lemma good_kws_all:
  "good_kws [kw_Chuong, kw_Chapter, kw_Hoi, kw_Quyen, kw_Book, kw_Phan, kw_Tiet, kw_Muc, kw_Part]"
  "good_kws [kw_Chuong, kw_Chapter, kw_Hoi, kw_Quyen, kw_Book]"
  "good_kws [kw_Phan, kw_Tiet, kw_Muc, kw_Part]"
  by (simp_all add: good_kws_def canon_def asc_def kw_Chuong_def kw_Chapter_def kw_Hoi_def kw_Quyen_def
        kw_Book_def kw_Phan_def kw_Tiet_def kw_Muc_def kw_Part_def)

lemma scan_chapterRegex_total:
  "\<exists>cs. scan_headings build_match chapterRegex False t 0 [] = Some (Inr cs)"
  using scan_headings_total [OF good_kws_all(1), of build_match False t 0 "[]"]
  by (auto simp: chapterRegex_def)

lemma scan_chapterRegex_good:
  assumes "scan_headings build_match chapterRegex False t 0 [] = Some (Inr cs)"
  shows "list_all (good_cm t) (uniqueMatches cs)"
proof -
  from scan_headings_good [OF good_kws_all(1), of False t 0 "[]" cs] assms
  have "list_all (good_cm t) cs" by (simp add: chapterRegex_def)
  with um_subset [of cs] show ?thesis by (auto simp: list_all_iff)
qed

lemma split_structure:
  assumes "scan_headings build_match chapterRegex False t 0 [] = Some (Inr cs)" and "cs \<noteq> []"
  shows "splitIntoChapters False t =
           Some (Inr (prologue_of t (uniqueMatches cs)
                      @ map (draft_at t (uniqueMatches cs)) [0..<length (uniqueMatches cs)]))"
  using assms by (simp add: splitIntoChapters_def slice_loop_map Let_def)

lemma draft_at_slice:
  assumes "scan_headings build_match chapterRegex False t 0 [] = Some (Inr cs)"
    and "i < length (uniqueMatches cs)"
  shows "draft_at t (uniqueMatches cs) i =
           \<lparr>title = cm_title (uniqueMatches cs ! i),
            content = trim (take (endIndex_at t (uniqueMatches cs) i - cm_index (uniqueMatches cs ! i))
                                 (drop (cm_index (uniqueMatches cs ! i)) t))\<rparr>"
  using um_ordered [OF scan_chapterRegex_good [OF assms(1)] um_sorted assms(2)]
  by (simp add: draft_at_def substring_slice)

lemma prologue_of_slice:
  "prologue_of t um =
     (if 0 < cm_matchStart (um ! 0) \<and> \<not> list_all is_ws (take (cm_matchStart (um ! 0)) t)
      then [\<lparr>title = title_foreword, content = trim (take (cm_matchStart (um ! 0)) t)\<rparr>] else [])"
proof -
  have "substring t 0 n = take n t" for n
    by (simp add: substring_def Let_def min_def max_def)
  then show ?thesis by (simp add: prologue_of_def Let_def trim_Nil_iff)
qed

section \<open>Properties of the chapter splitter\<close>

text \<open>The equations that evaluate the splitter on a concrete text.\<close>

lemmas pat_defs = chapterRegex_def chapterPatterns_def falsePositivePattern_def keywordPattern_def heading_def heading_tail_def Plus_def Opt_def icls_def ichr_def canon_def ci_eq_def ci_mem_def is_nl_def is_blank_def is_digit_def is_sep_def is_sepws_def not_nl_def asc_def reset_def is_ws_def kw_Chuong_def kw_Chapter_def kw_Hoi_def kw_Quyen_def kw_Book_def kw_Phan_def kw_Tiet_def kw_Muc_def kw_Part_def
lemmas eval_defs = pat_defs match_at_def ms_Upto_numeral ms_Star exec_from.simps scan_headings.simps slice_loop.simps slice_loop_orig.simps
  indexOf.simps build_match_def build_match_orig_def matched_def capture_def test_def substring_def trim_def strip_newlines_def sentence_end_def
  uniqueMatches_def prologue_of_def endIndex_at_def draft_at_def splitIntoChapters_def splitIntoChapters_orig_def title_content_def title_foreword_def Let_def

text \<open>\<open>slice t (a, b)\<close> is the text of the half-open span \<open>[a, b)\<close> of \<open>t\<close>.\<close>

definition slice :: "jstring \<Rightarrow> nat \<times> nat \<Rightarrow> jstring" where
  "slice t = (\<lambda>(a, b). take (b - a) (drop a t))"

subsection \<open>No candidate\<close>

lemma scan_hello:
  "scan_headings build_match chapterRegex False (asc ''Hello world'') 0 [] = Some (Inr [])"
  by (simp add: eval_defs)

text \<open>
  Claim C2 as stated (one chapter with title ``Content'') fails: the title of the single
  chapter is the fixed literal of the source, the Vietnamese for ``content'' (N, the letter
  U+1ED9, i, space, d, u, n, g: eight code units), which is not the string ``Content''.
  Here a text without any heading is split.
\<close>

theorem fallback_title_is_not_Content_counterexample:
  "scan_headings build_match chapterRegex False (asc ''Hello world'') 0 [] = Some (Inr [])
   \<and> splitIntoChapters False (asc ''Hello world'')
       = Some (Inr [\<lparr>title = [78, 7897, 105, 32, 100, 117, 110, 103], content = asc ''Hello world''\<rparr>])
   \<and> splitIntoChapters False (asc ''Hello world'')
       \<noteq> Some (Inr [\<lparr>title = asc ''Content'', content = asc ''Hello world''\<rparr>])"
  by (simp add: eval_defs)

text \<open>
  Claim C2, amended. When the detector finishes with zero boundary candidates, the splitter
  returns exactly one chapter, whose title is the string of the eight code units
  78, 7897, 105, 32, 100, 117, 110, 103 (the Vietnamese for ``content'') and whose content
  is the full text it was given. The hypothesis says that the scan loop returned normally
  with an empty \<^verbatim>\<open>allMatches\<close>.
\<close>

theorem zero_candidates_single_chapter_Noi_dung:
  assumes "scan_headings build_match chapterRegex aborted t 0 [] = Some (Inr [])"
  shows "splitIntoChapters aborted t
           = Some (Inr [\<lparr>title = [78, 7897, 105, 32, 100, 117, 110, 103], content = t\<rparr>])"
  using assms by (simp add: splitIntoChapters_def title_content_def)

text \<open>Witness for C2: a text without any heading.\<close>

theorem zero_candidates_single_chapter_Noi_dung_witness:
  "scan_headings build_match chapterRegex False (asc ''Hello world'') 0 [] = Some (Inr [])
   \<and> splitIntoChapters False (asc ''Hello world'')
       = Some (Inr [\<lparr>title = [78, 7897, 105, 32, 100, 117, 110, 103], content = asc ''Hello world''\<rparr>])"
  using zero_candidates_single_chapter_Noi_dung [OF scan_hello] scan_hello by simp

subsection \<open>The contents and the text\<close>

text \<open>
  Claim C1 as stated fails: on a text that starts with a heading line the only chapter has
  the body as its content, and the concatenation of the contents is not the text (the
  heading line went into the title).
\<close>

theorem contents_not_partition_counterexample:
  "splitIntoChapters False (asc ''Chapter 1.\<newline>Hello'')
     = Some (Inr [\<lparr>title = asc ''Chapter 1'', content = asc ''Hello''\<rparr>])
   \<and> concat (map content [\<lparr>title = asc ''Chapter 1'', content = asc ''Hello''\<rparr>]) \<noteq> asc ''Chapter 1.\<newline>Hello''"
  by (simp add: eval_defs)

text \<open>
  \<open>heading_line t (a, b)\<close>: the span is not empty, starts at the beginning of a line of
  \<open>t\<close> and contains no newline before its last character: it is one line, or the
  beginning of one. \<open>pieces t um\<close> are, for every candidate in order, the span of its
  heading line \<open>[matchStart\<^sub>i, contentStart\<^sub>i)\<close> and the span of its body
  \<open>[contentStart\<^sub>i, matchStart\<^sub>i\<^sub>+\<^sub>1)\<close>, the last body running to the end of the text.
\<close>

definition heading_line :: "jstring \<Rightarrow> nat \<times> nat \<Rightarrow> bool" where
  "heading_line t = (\<lambda>(a, b). a < b \<and> b \<le> length t \<and> (a = 0 \<or> t ! (a - 1) = 10)
                               \<and> 10 \<notin> set (slice t (a, b - 1)))"

definition pieces :: "jstring \<Rightarrow> ChapterMatch list \<Rightarrow> ((nat \<times> nat) \<times> (nat \<times> nat)) list" where
  "pieces t um =
     map (\<lambda>i. ((cm_matchStart (um ! i), cm_index (um ! i)), (cm_index (um ! i), endIndex_at t um i)))
       [0..<length um]"

lemma indexOf_None: "indexOf s c i = None \<Longrightarrow> c \<notin> set (drop i s)"
  by (auto simp: indexOf.simps split: list.splits)

lemma indexOf_first:
  assumes "indexOf s c i = Some l"
  shows "c \<notin> set (take (l - i) (drop i s))"
proof -
  let ?P = "\<lambda>x. x \<noteq> c"
  from assms obtain x r where d: "dropWhile ?P (drop i s) = x # r"
    and l: "l = length s - Suc (length r)"
    by (auto simp: indexOf.simps split: list.splits)
  have "length (takeWhile ?P (drop i s)) + length (dropWhile ?P (drop i s)) = length (drop i s)"
    by (metis length_append takeWhile_dropWhile_id)
  with d l have "length (takeWhile ?P (drop i s)) = l - i" by simp
  then have "take (l - i) (drop i s) = takeWhile ?P (drop i s)"
    by (metis takeWhile_eq_take)
  then show ?thesis by (auto dest: set_takeWhileD)
qed

lemma good_cm_heading_line:
  assumes "good_cm t c"
  shows "heading_line t (cm_matchStart c, cm_index c)"
proof -
  have "10 \<notin> set (take (cm_index c - 1 - cm_matchStart c) (drop (cm_matchStart c) t))"
  proof (cases "indexOf t 10 (cm_matchStart c)")
    case None
    from indexOf_None [OF this] show ?thesis by (auto dest: in_set_takeD)
  next
    case (Some l)
    with assms have "cm_index c = l + 1" by (simp add: good_cm_def)
    with indexOf_first [OF Some] show ?thesis by simp
  qed
  with assms show ?thesis by (simp add: heading_line_def slice_def good_cm_def)
qed

lemma drop_split: "a \<le> b \<Longrightarrow> drop a t = take (b - a) (drop a t) @ drop b t"
  by (metis append_take_drop_id drop_drop le_add_diff_inverse2)

lemma tiling:
  assumes "\<And>i. i < n \<Longrightarrow> a i \<le> b i \<and> b i \<le> c i"
    and "\<And>i. Suc i < n \<Longrightarrow> c i = a (Suc i)"
    and "c (n - 1) = length t"
  shows "k < n \<Longrightarrow>
     drop (a k) t = concat (map (\<lambda>i. slice t (a i, b i) @ slice t (b i, c i)) [k..<n])"
proof (induction "n - k" arbitrary: k)
  case 0
  then show ?case by simp
next
  case (Suc m)
  from assms(1) [OF Suc.prems] have o: "a k \<le> b k" "b k \<le> c k" by auto
  have 1: "drop (a k) t = slice t (a k, b k) @ slice t (b k, c k) @ drop (c k) t"
    using drop_split [OF o(1), of t] drop_split [OF o(2), of t] by (simp add: slice_def)
  have 2: "drop (c k) t = concat (map (\<lambda>i. slice t (a i, b i) @ slice t (b i, c i)) [Suc k..<n])"
  proof (cases "Suc k < n")
    case True
    with Suc.hyps(1) [of "Suc k"] Suc.hyps(2) assms(2) [of k] show ?thesis by simp
  next
    case False
    with Suc.prems have "k = n - 1" by simp
    with assms(3) False show ?thesis by simp
  qed
  from 1 2 Suc.prems show ?case by (simp add: upt_conv_Cons)
qed

text \<open>
  Claim C1, amended. For every text the splitter (not cancelled) returns chapters. With no
  candidate the single chapter has the whole text as its content. Otherwise the text is,
  with no gap and no overlap, the prefix before the first heading followed by, for every
  candidate in order, its heading line and its body; every heading line is one line of the
  text; and the contents of the chapters are, in output order, the trimmed prefix (left
  out when the prefix is blank) and the trimmed bodies. So what the contents do not
  reproduce is exactly the heading lines and the white space that \<^verbatim>\<open>trim\<close> removes at the
  ends of the prefix and of the bodies.
\<close>

theorem contents_are_text_without_heading_lines:
  "\<exists>cs. scan_headings build_match chapterRegex False t 0 [] = Some (Inr cs) \<and>
     (if cs = []
      then splitIntoChapters False t
             = Some (Inr [\<lparr>title = [78, 7897, 105, 32, 100, 117, 110, 103], content = t\<rparr>])
      else (let um = uniqueMatches cs; pre = take (cm_matchStart (um ! 0)) t
            in t = pre @ concat (map (\<lambda>(h, b). slice t h @ slice t b) (pieces t um))
               \<and> list_all (\<lambda>(h, b). heading_line t h) (pieces t um)
               \<and> (\<exists>chs. splitIntoChapters False t = Some (Inr chs)
                    \<and> map content chs
                        = (if list_all is_ws pre then [] else [trim pre])
                          @ map (\<lambda>(h, b). trim (slice t b)) (pieces t um))))"
proof -
  from scan_chapterRegex_total obtain cs where
    scan: "scan_headings build_match chapterRegex False t 0 [] = Some (Inr cs)" by blast
  show ?thesis
  proof (cases "cs = []")
    case True
    with scan show ?thesis by (simp add: splitIntoChapters_def title_content_def)
  next
    case False
    define um where "um = uniqueMatches cs"
    define n where "n = length um"
    note good = scan_chapterRegex_good [OF scan, folded um_def]
    note ord = um_ordered [OF good um_sorted [of cs, folded um_def]]
    have une: "um \<noteq> []" using False unfolding um_def by (rule um_nonempty)
    then have n0: "0 < n" by (simp add: n_def)
    have nxt: "endIndex_at t um i = cm_matchStart (um ! Suc i)" if "Suc i < n" for i
      using that by (auto simp: endIndex_at_def n_def)
    have lst: "endIndex_at t um (n - 1) = length t"
      by (simp add: endIndex_at_def n_def)
    have "drop (cm_matchStart (um ! 0)) t
            = concat (map (\<lambda>i. slice t (cm_matchStart (um ! i), cm_index (um ! i))
                               @ slice t (cm_index (um ! i), endIndex_at t um i)) [0..<n])"
    proof (rule tiling [where a = "\<lambda>i. cm_matchStart (um ! i)" and b = "\<lambda>i. cm_index (um ! i)"
                         and c = "endIndex_at t um" and n = n and k = 0 and t = t])
      show "endIndex_at t um (n - 1) = length t" by (rule lst)
      show "0 < n" by (rule n0)
    next
      fix i assume "i < n"
      then show "cm_matchStart (um ! i) \<le> cm_index (um ! i) \<and> cm_index (um ! i) \<le> endIndex_at t um i"
        using ord(1,3) [of i] by (simp add: n_def)
    next
      fix i assume "Suc i < n"
      then show "endIndex_at t um i = cm_matchStart (um ! Suc i)" by (rule nxt)
    qed
    then have "take (cm_matchStart (um ! 0)) t @ drop (cm_matchStart (um ! 0)) t
                 = take (cm_matchStart (um ! 0)) t
                   @ concat (map (\<lambda>(h, b). slice t h @ slice t b) (pieces t um))"
      by (simp only: pieces_def n_def map_map comp_def prod.case)
    then have tile: "t = take (cm_matchStart (um ! 0)) t
                       @ concat (map (\<lambda>(h, b). slice t h @ slice t b) (pieces t um))"
      by (simp only: append_take_drop_id)
    have hl: "list_all (\<lambda>(h, b). heading_line t h) (pieces t um)"
      using good good_cm_heading_line by (simp add: pieces_def list_all_length)
    have drafts: "map content (map (draft_at t um) [0..<length um])
                    = map (\<lambda>(h, b). trim (slice t b)) (pieces t um)"
      using draft_at_slice [OF scan, folded um_def] by (simp add: pieces_def slice_def)
    have pro: "map content (prologue_of t um)
                 = (if list_all is_ws (take (cm_matchStart (um ! 0)) t) then []
                    else [trim (take (cm_matchStart (um ! 0)) t)])"
      by (simp add: prologue_of_slice)
    from split_structure [OF scan False, folded um_def] drafts pro
    have out: "\<exists>chs. splitIntoChapters False t = Some (Inr chs)
                 \<and> map content chs
                     = (if list_all is_ws (take (cm_matchStart (um ! 0)) t) then []
                        else [trim (take (cm_matchStart (um ! 0)) t)])
                       @ map (\<lambda>(h, b). trim (slice t b)) (pieces t um)"
      by simp
    from scan False tile hl out show ?thesis
      by (intro exI [of _ cs]) (simp add: um_def [symmetric] Let_def)
  qed
qed

lemma scan_blank_prefix:
  "scan_headings build_match chapterRegex False (asc ''\<newline>Chapter 1.\<newline> foo'') 0 []
     = Some (Inr [\<lparr>cm_index = 12, cm_matchStart = 1, cm_title = asc ''Chapter 1''\<rparr>])"
  by (simp add: eval_defs)






text \<open>
  Claim C10 as stated fails: with no candidate the single chapter carries the text
  unchanged, white space at both ends included.
\<close>

theorem fallback_untrimmed_counterexample:
  "splitIntoChapters False (asc '' x '') = Some (Inr [\<lparr>title = title_content, content = asc '' x ''\<rparr>])
   \<and> \<not> trimmed (asc '' x '')"
  by (simp add: eval_defs trimmed_def)

text \<open>
  Claim C10, amended. When the detector accepts at least one candidate, every chapter the
  splitter emits, the prologue included, has a title and a content without leading or
  trailing white space; and when the prefix before the first boundary is blank, no prologue
  is emitted: the chapters are exactly those of the candidates. (With no candidate the
  single chapter carries the text as it is.)
\<close>

theorem drafts_trimmed_when_candidates:
  assumes "scan_headings build_match chapterRegex False t 0 [] = Some (Inr cs)"
    and "cs \<noteq> []" and "splitIntoChapters False t = Some (Inr chs)"
  shows "list_all (\<lambda>c. trimmed (title c) \<and> trimmed (content c)) chs
         \<and> (list_all is_ws (take (cm_matchStart (uniqueMatches cs ! 0)) t)
              \<longrightarrow> map title chs = map cm_title (uniqueMatches cs))"
proof -
  let ?um = "uniqueMatches cs"
  have chs: "chs = prologue_of t ?um @ map (draft_at t ?um) [0..<length ?um]"
    using split_structure [OF assms(1,2)] assms(3) by simp
  have tf: "trimmed title_foreword" by (simp add: trimmed_def title_foreword_def is_ws_def)
  have p: "list_all (\<lambda>c. trimmed (title c) \<and> trimmed (content c)) (prologue_of t ?um)"
    using tf trimmed_trim by (simp add: prologue_of_def Let_def)
  have "trimmed (cm_title (?um ! i))" if "i < length ?um" for i
    using scan_chapterRegex_good [OF assms(1)] that by (simp add: list_all_length good_cm_def)
  then have d: "list_all (\<lambda>c. trimmed (title c) \<and> trimmed (content c)) (map (draft_at t ?um) [0..<length ?um])"
    using trimmed_trim by (simp add: list_all_iff draft_at_def)
  from p d chs have all: "list_all (\<lambda>c. trimmed (title c) \<and> trimmed (content c)) chs" by simp
  have titles: "map title chs = map cm_title ?um"
    if blank: "list_all is_ws (take (cm_matchStart (?um ! 0)) t)"
  proof -
    from blank have "prologue_of t ?um = []" by (simp add: prologue_of_slice)
    moreover have "map (\<lambda>i. cm_title (?um ! i)) [0..<length ?um] = map cm_title ?um"
      by (rule nth_equalityI) simp_all
    ultimately show ?thesis using chs by (simp add: draft_at_def comp_def)
  qed
  from all titles show ?thesis by simp
qed

text \<open>Witness for C10: a blank prefix before the only heading.\<close>

theorem drafts_trimmed_when_candidates_witness:
  "scan_headings build_match chapterRegex False (asc ''\<newline>Chapter 1.\<newline> foo'') 0 []
     = Some (Inr [\<lparr>cm_index = 12, cm_matchStart = 1, cm_title = asc ''Chapter 1''\<rparr>])
   \<and> splitIntoChapters False (asc ''\<newline>Chapter 1.\<newline> foo'')
     = Some (Inr [\<lparr>title = asc ''Chapter 1'', content = asc ''foo''\<rparr>])
   \<and> list_all (\<lambda>c. trimmed (title c) \<and> trimmed (content c))
        [\<lparr>title = asc ''Chapter 1'', content = asc ''foo''\<rparr>]
   \<and> list_all is_ws (take 1 (asc ''\<newline>Chapter 1.\<newline> foo''))
   \<and> map title [\<lparr>title = asc ''Chapter 1'', content = asc ''foo''\<rparr>] = [asc ''Chapter 1'']"
proof -
  have s: "splitIntoChapters False (asc ''\<newline>Chapter 1.\<newline> foo'')
     = Some (Inr [\<lparr>title = asc ''Chapter 1'', content = asc ''foo''\<rparr>])"
    by (simp add: eval_defs)
  have u: "uniqueMatches [\<lparr>cm_index = 12, cm_matchStart = 1, cm_title = asc ''Chapter 1''\<rparr>]
             = [\<lparr>cm_index = 12, cm_matchStart = 1, cm_title = asc ''Chapter 1''\<rparr>]"
    by (simp add: uniqueMatches_def)
  have b: "list_all is_ws (take 1 (asc ''\<newline>Chapter 1.\<newline> foo''))"
    by (simp add: asc_def is_ws_def)
  from drafts_trimmed_when_candidates [OF scan_blank_prefix _ s] u b scan_blank_prefix s
  show ?thesis by simp
qed

text \<open>
  Claim C8 (the current splitter returns the same chapter list as the original) fails on
  the code. On the text ``Chapter 1'', newline, ``Part 2'' the combined pattern finds one
  match: the optional tail \<^verbatim>\<open>[:\-\.\s][ \t]*([^\n]{0,100})\<close> takes the newline as its
  separator and the whole second line as the subtitle, and the scan resumes after it. The
  original's second pattern scans the text again from the start and finds the heading
  ``Part 2'' inside the first match. The current version returns one chapter, the original
  two with empty contents.
\<close>

theorem combined_pattern_differs_from_two_patterns:
  "splitIntoChapters False (asc ''Chapter 1\<newline>Part 2'')
     = Some (Inr [\<lparr>title = asc ''Chapter 1: Part 2'', content = asc ''Part 2''\<rparr>])
   \<and> splitIntoChapters_orig (\<lambda>k. False) (asc ''Chapter 1\<newline>Part 2'')
     = Some (Inr [\<lparr>title = asc ''Chapter 1: Part 2'', content = []\<rparr>,
                  \<lparr>title = asc ''Part 2'', content = []\<rparr>])"
  by (simp add: eval_defs)

section \<open>JavaScript numbers\<close>

text \<open>
  A JavaScript number is an IEEE 754 double, and every arithmetic operation rounds its
  exact result to the nearest double, ties to the even mantissa. \<open>fl x\<close> is that rounding
  of a real number with the exponent unbounded above: the mantissa \<open>m\<close> is brought into
  \<open>[2\<^sup>5\<^sup>2, 2\<^sup>5\<^sup>3)\<close> by doubling and halving, the doubling stopping at the unit \<open>2\<^sup>-\<^sup>1\<^sup>0\<^sup>7\<^sup>4\<close> of
  the subnormal numbers, and is then rounded to an integer. The number of steps is at most
  4400 for every sum, difference, product and quotient of two doubles. \<open>dbl x\<close> is the
  number the operation yields: \<open>fl x\<close>, or an infinity when \<open>fl x\<close> is beyond the finite
  doubles. The operands of the source are finite (page coordinates, counts), and its
  operations never yield \<^verbatim>\<open>NaN\<close> from finite operands.
\<close>

definition round_even :: "real \<Rightarrow> int" where
  "round_even x =
     (let f = \<lfloor>x\<rfloor>; r = x - of_int f
      in if r < 1 / 2 then f else if 1 / 2 < r then f + 1 else if even f then f else f + 1)"

fun scale_mantissa :: "nat \<Rightarrow> real \<Rightarrow> int \<Rightarrow> real \<times> int" where
  "scale_mantissa 0 m e = (m, e)"
| "scale_mantissa (Suc k) m e =
     (if m < 2 ^ 52 \<and> - 1074 < e then scale_mantissa k (2 * m) (e - 1)
      else if 2 ^ 53 \<le> m then scale_mantissa k (m / 2) (e + 1)
      else (m, e))"

definition pow2 :: "int \<Rightarrow> real" where
  "pow2 e = (if 0 \<le> e then 2 ^ nat e else 1 / 2 ^ nat (- e))"

definition fl :: "real \<Rightarrow> real" where
  "fl x = (if x = 0 then 0
           else case scale_mantissa 4400 \<bar>x\<bar> 0 of (m, e) \<Rightarrow> sgn x * of_int (round_even m) * pow2 e)"

datatype jsnum = Finite real | PosInf | NegInf

definition dbl :: "real \<Rightarrow> jsnum" where
  "dbl x = (let y = fl x
            in if 2 ^ 1024 \<le> y then PosInf else if y \<le> - (2 ^ 1024) then NegInf else Finite y)"

text \<open>\<^verbatim>\<open>a > b\<close>, \<^verbatim>\<open>Math.abs(a)\<close>, \<^verbatim>\<open>a - b\<close> for a finite \<open>a\<close>, and \<^verbatim>\<open>Math.round(x)\<close>
  for a finite \<open>x\<close> (the nearest integer, the greater one of two).\<close>

fun num_gt :: "jsnum \<Rightarrow> jsnum \<Rightarrow> bool" where
  "num_gt (Finite a) (Finite b) \<longleftrightarrow> a > b"
| "num_gt PosInf (Finite b) \<longleftrightarrow> True"
| "num_gt PosInf NegInf \<longleftrightarrow> True"
| "num_gt (Finite a) NegInf \<longleftrightarrow> True"
| "num_gt PosInf PosInf \<longleftrightarrow> False"
| "num_gt (Finite a) PosInf \<longleftrightarrow> False"
| "num_gt NegInf b \<longleftrightarrow> False"

fun num_abs :: "jsnum \<Rightarrow> jsnum" where
  "num_abs (Finite a) = Finite \<bar>a\<bar>"
| "num_abs PosInf = PosInf"
| "num_abs NegInf = PosInf"

fun num_sub :: "real \<Rightarrow> jsnum \<Rightarrow> jsnum" where
  "num_sub a (Finite b) = dbl (a - b)"
| "num_sub a PosInf = NegInf"
| "num_sub a NegInf = PosInf"

definition js_round :: "real \<Rightarrow> int" where
  "js_round x = \<lfloor>x + 1 / 2\<rfloor>"


section \<open>The page reader (parsePdf)\<close>

text \<open>
  A text item of pdf.js: \<^verbatim>\<open>item.str\<close>, the translation \<^verbatim>\<open>transform[4]\<close> (x) and
  \<^verbatim>\<open>transform[5]\<close> (baseline y), the vertical scale \<^verbatim>\<open>transform[3]\<close> (the font
  height) and \<^verbatim>\<open>item.width\<close>, which may be missing. The coordinates are finite doubles,
  given by their real values; what the source computes from them is rounded as
  JavaScript rounds it, the literals \<^verbatim>\<open>1.4\<close>, \<^verbatim>\<open>0.4\<close> and \<^verbatim>\<open>0.3\<close> included.
\<close>

record item =
  str :: jstring
  tx :: real
  ty :: real
  th :: real
  width :: "real option"

text \<open>\<^verbatim>\<open>item.width || 0\<close>\<close>

definition width_or_0 :: "item \<Rightarrow> real" where
  "width_or_0 it = (case width it of None \<Rightarrow> 0 | Some w \<Rightarrow> w)"

text \<open>
  The state of the walk over the sorted items of a page: the \<^verbatim>\<open>parts\<close> pushed so far
  and \<^verbatim>\<open>lastY\<close>, \<^verbatim>\<open>lastX\<close>, \<^verbatim>\<open>lastWidth\<close>. \<open>separator\<close> is what one iteration
  pushes before the item's own text, \<open>step\<close> one iteration of the \<^verbatim>\<open>for\<close> loop. The
  value \<open>- 1\<close> of \<^verbatim>\<open>lastY\<close> means ``no item seen yet'' to the source.
\<close>

record walk =
  parts :: "jstring list"
  lastY :: real
  lastX :: jsnum
  lastWidth :: real

definition separator :: "walk \<Rightarrow> item \<Rightarrow> jstring list" where
  "separator w it =
     (if lastY w \<noteq> - 1 then
        (let yDiff = num_abs (dbl (ty it - lastY w));
             fontHeight = th it
         in if num_gt yDiff (dbl (fontHeight * fl 1.4)) then [[10, 10]]
            else if num_gt yDiff (dbl (fontHeight * fl 0.4)) then [[10]]
            else (let gap = num_sub (tx it) (lastX w)
                  in if num_gt gap (dbl (fontHeight * fl 0.3)) then [[32]] else []))
      else [])"

definition step :: "item \<Rightarrow> walk \<Rightarrow> walk" where
  "step it w =
     \<lparr>parts = parts w @ separator w it @ [str it],
      lastY = ty it,
      lastX = dbl (tx it + width_or_0 it),
      lastWidth = width_or_0 it\<rparr>"

text \<open>
  The text of one page, from its items in the order in which the \<^verbatim>\<open>sort\<close> call of the
  source leaves them: the walk, \<^verbatim>\<open>parts.join('')\<close>, and the removal of the middle dots
  (U+00B7).
\<close>

definition page_text :: "item list \<Rightarrow> jstring" where
  "page_text items =
     filter (\<lambda>c. c \<noteq> 183)
       (concat (parts (fold step items \<lparr>parts = [], lastY = - 1, lastX = Finite (- 1), lastWidth = 0\<rparr>)))"

subsection \<open>Promise.all\<close>

text \<open>
  \<^verbatim>\<open>Promise.all(ps)\<close>: each promise that fulfils stores its value at its own index; the
  first promise that rejects, in the order of completion, rejects the whole; when all have
  fulfilled, the result is the array of values in index order. \<open>ps\<close> are the outcomes of
  the promises and \<open>time k\<close> is the moment at which promise \<open>k\<close> settles, so the order of
  completion is the list of indices sorted by \<open>time\<close>.
\<close>

fun settle :: "(error + 'a) list \<Rightarrow> nat list \<Rightarrow> 'a option list \<Rightarrow> error + 'a option list" where
  "settle ps [] vals = Inr vals"
| "settle ps (k # ks) vals =
     (case ps ! k of Inl e \<Rightarrow> Inl e | Inr v \<Rightarrow> settle ps ks (vals[k := Some v]))"

definition promise_all :: "(nat \<Rightarrow> nat) \<Rightarrow> (error + 'a) list \<Rightarrow> error + 'a list" where
  "promise_all time ps =
     (case settle ps (sort_key time [0..<length ps]) (replicate (length ps) None) of
        Inl e \<Rightarrow> Inl e
      | Inr vals \<Rightarrow> Inr (map the vals))"

subsection \<open>parsePdf\<close>

text \<open>
  A page is the outcome of \<^verbatim>\<open>pdf.getPage(n)\<close> followed by \<^verbatim>\<open>page.getTextContent()\<close>:
  an error, or its sorted items. The document is the outcome of
  \<^verbatim>\<open>pdfjsLib.getDocument(...).promise\<close>: an error, or its pages.

  The cancellation signal is a function of a logical clock: \<open>signal n\<close> is the value of
  \<^verbatim>\<open>signal.aborted\<close> once \<open>n\<close> awaits of the run have completed. JavaScript runs to
  completion between awaits, so the signal can only change while the function is suspended
  at one. \<^verbatim>\<open>parsePdf\<close> has completed two awaits when its loop starts, and one more
  (the \<^verbatim>\<open>Promise.all\<close> of the batch) per iteration.

  \<open>batch_of pages i\<close> are the promises of the batch that starts at page \<open>i\<close> (pages
  count from 1), \<open>store_batch\<close> the loop that copies \<^verbatim>\<open>batchResults\<close> into
  \<^verbatim>\<open>pagesText\<close>, and \<open>pdf_batches\<close> the outer \<^verbatim>\<open>for\<close> loop. \<^verbatim>\<open>pagesText\<close> starts
  as an array of holes, which \<^verbatim>\<open>join\<close> renders as empty strings.
\<close>

type_synonym page = "error + item list"

definition BATCH_SIZE :: nat where
  "BATCH_SIZE = 50"

fun join :: "jstring \<Rightarrow> jstring list \<Rightarrow> jstring" where
  "join sep [] = []"
| "join sep [x] = x"
| "join sep (x # y # ys) = x @ sep @ join sep (y # ys)"

definition batch_of :: "page list \<Rightarrow> nat \<Rightarrow> (error + jstring) list" where
  "batch_of pages i =
     map (\<lambda>j. map_sum id page_text (pages ! (i + j - 1)))
         [0..<min BATCH_SIZE (length pages + 1 - i)]"

definition store_batch :: "nat \<Rightarrow> jstring list \<Rightarrow> jstring option list \<Rightarrow> jstring option list" where
  "store_batch i batchResults pagesText =
     fold (\<lambda>j a. a[i + j - 1 := Some (batchResults ! j)]) [0..<length batchResults] pagesText"

function pdf_batches ::
  "(nat \<Rightarrow> bool) \<Rightarrow> (nat \<Rightarrow> nat) \<Rightarrow> page list \<Rightarrow> nat \<Rightarrow> nat \<Rightarrow> jstring option list
     \<Rightarrow> error + jstring option list" where
  "pdf_batches signal time pages i clock pagesText =
     (if i \<le> length pages then
        (if signal clock then Inl Aborted
         else case promise_all (\<lambda>j. time (i + j)) (batch_of pages i) of
                Inl e \<Rightarrow> Inl e
              | Inr batchResults \<Rightarrow>
                  pdf_batches signal time pages (i + BATCH_SIZE) (clock + 1)
                    (store_batch i batchResults pagesText))
      else Inr pagesText)"
  by pat_completeness auto
termination
  by (relation "measure (\<lambda>(signal, time, pages, i, clock, pagesText). Suc (length pages) - i)")
     (auto simp: BATCH_SIZE_def)

declare pdf_batches.simps [simp del]

definition parsePdf :: "(nat \<Rightarrow> bool) \<Rightarrow> (nat \<Rightarrow> nat) \<Rightarrow> error + page list \<Rightarrow> error + jstring" where
  "parsePdf signal time doc =
     (case doc of
        Inl e \<Rightarrow> Inl e
      | Inr pages \<Rightarrow>
          (case pdf_batches signal time pages 1 2 (replicate (length pages) None) of
             Inl e \<Rightarrow> Inl e
           | Inr pagesText \<Rightarrow>
               Inr (join [10, 10] (map (\<lambda>p. case p of None \<Rightarrow> [] | Some s \<Rightarrow> s) pagesText))))"


section \<open>The package reader (parseEpub)\<close>

text \<open>
  \<^verbatim>\<open>parseEpub\<close> first opens the archive and reads the container, the package
  description, the manifest, the spine and the optional navigation file (steps 1 to 3 of
  the source), then reads the spine entries in batches of ten (step 4). Steps 1 to 3 are
  taken by their outcome: \<open>load\<close> is the rejection, if any, of
  \<^verbatim>\<open>file.arrayBuffer()\<close> or \<^verbatim>\<open>JSZip.loadAsync\<close>, and \<open>package\<close> is the error thrown by
  steps 1 to 3 or the values they leave in \<^verbatim>\<open>bookTitle\<close>, \<^verbatim>\<open>manifest\<close> and
  \<^verbatim>\<open>spineItems\<close>; \<open>ncx_read\<close> says whether the navigation file was read (one more
  await). For step 4, \<open>decodable href\<close> is the exception, if any, that
  \<^verbatim>\<open>decodeURIComponent(href)\<close> throws while the batch is being set up, and
  \<open>entry href\<close> is what the asynchronous reader of one spine entry settles with: a
  rejection, \<^verbatim>\<open>null\<close> (no file, or fewer than 10 characters of text), or
  \<^verbatim>\<open>{ title: chTitle || '', content: textContent }\<close>. The theorems hold for every such
  function.
\<close>

record epub =
  bookTitle :: jstring
  manifest :: "jstring \<Rightarrow> jstring option"
  spineItems :: "jstring list"
  ncx_read :: bool
  decodable :: "jstring \<Rightarrow> error option"
  entry :: "jstring \<Rightarrow> error + ChapterDraft option"

record epub_file =
  load :: "error option"
  package :: "error + epub"

text \<open>
  The result \<^verbatim>\<open>{ title, chapters }\<close>, and the observable course of a run: the logical
  clock (the number of awaits completed, see \<open>signal\<close> above) and the calls of the
  progress callback, each with the clock at which it was made and its percentage.
\<close>

record import_result =
  r_title :: jstring
  r_chapters :: "ChapterDraft list"

record trace =
  clock :: nat
  calls :: "(nat \<times> int) list"

definition EPUB_BATCH :: nat where
  "EPUB_BATCH = 10"

text \<open>The default title of the template literal: the keyword \<open>kw_Chuong\<close>, a space and
  the decimal digits of \<^verbatim>\<open>chapterNum\<close>.\<close>

function decimal :: "nat \<Rightarrow> jstring" where
  "decimal n = (if n < 10 then [48 + n] else decimal (n div 10) @ [48 + n mod 10])"
  by pat_completeness auto
termination
  by (relation "measure id") auto

declare decimal.simps [simp del]

definition default_title :: "nat \<Rightarrow> jstring" where
  "default_title chapterNum = kw_Chuong @ [32] @ decimal chapterNum"

text \<open>
  The inner loop that sets up the promises of a batch (an entry without a manifest item
  is \<^verbatim>\<open>Promise.resolve(null)\<close>), and the loop that pushes the results of a batch,
  counting the chapters in \<^verbatim>\<open>chapterNum\<close>.
\<close>

fun batch_promises :: "epub \<Rightarrow> jstring list \<Rightarrow> error + (error + ChapterDraft option) list" where
  "batch_promises pkg [] = Inr []"
| "batch_promises pkg (itemId # rest) =
     (case manifest pkg itemId of
        None \<Rightarrow> map_sum id ((#) (Inr None)) (batch_promises pkg rest)
      | Some href \<Rightarrow>
          (case decodable pkg href of
             Some e \<Rightarrow> Inl e
           | None \<Rightarrow> map_sum id ((#) (entry pkg href)) (batch_promises pkg rest)))"

fun push_results ::
  "ChapterDraft option list \<Rightarrow> ChapterDraft list \<times> nat \<Rightarrow> ChapterDraft list \<times> nat" where
  "push_results [] (chapters, chapterNum) = (chapters, chapterNum)"
| "push_results (None # rest) (chapters, chapterNum) = push_results rest (chapters, chapterNum)"
| "push_results (Some result # rest) (chapters, chapterNum) =
     push_results rest
       (chapters @ [\<lparr>title = (if title result = [] then default_title (chapterNum + 1) else title result),
                      content = content result\<rparr>],
        chapterNum + 1)"

text \<open>
  The outer loop: the signal is checked at the head of each batch; the progress callback
  is called after the batch has been awaited and pushed, with
  \<^verbatim>\<open>Math.round((batchEnd / spineItems.length) * 90)\<close>, the quotient and the product
  rounded to doubles.
\<close>

function epub_batches ::
  "(nat \<Rightarrow> bool) \<Rightarrow> (nat \<Rightarrow> nat) \<Rightarrow> epub \<Rightarrow> nat \<Rightarrow> trace \<Rightarrow> ChapterDraft list \<times> nat
     \<Rightarrow> trace \<times> (error + ChapterDraft list)" where
  "epub_batches signal time pkg i tr acc =
     (if i < length (spineItems pkg) then
        (if signal (clock tr) then (tr, Inl Aborted)
         else
           let batchEnd = min (i + EPUB_BATCH) (length (spineItems pkg))
           in case batch_promises pkg (take (batchEnd - i) (drop i (spineItems pkg))) of
                Inl e \<Rightarrow> (tr, Inl e)
              | Inr batchPromises \<Rightarrow>
                  (case promise_all (\<lambda>j. time (i + j)) batchPromises of
                     Inl e \<Rightarrow> (tr\<lparr>clock := clock tr + 1\<rparr>, Inl e)
                   | Inr batchResults \<Rightarrow>
                       let pct = js_round (fl (fl (real batchEnd / real (length (spineItems pkg))) * 90))
                       in epub_batches signal time pkg (i + EPUB_BATCH)
                            \<lparr>clock = clock tr + 1, calls = calls tr @ [(clock tr + 1, pct)]\<rparr>
                            (push_results batchResults acc)))
      else (tr, Inr (fst acc)))"
  by pat_completeness auto
termination
  by (relation "measure (\<lambda>(signal, time, pkg, i, tr, acc). length (spineItems pkg) - i)")
     (auto simp: EPUB_BATCH_def)

declare epub_batches.simps [simp del]

text \<open>
  \<^verbatim>\<open>parseEpub\<close>, and the branch of \<^verbatim>\<open>parseFile\<close> for a package: it reports 0 percent,
  awaits \<^verbatim>\<open>parseEpub\<close>, reports 100 percent and returns the result.
\<close>

definition parseEpub ::
  "(nat \<Rightarrow> bool) \<Rightarrow> (nat \<Rightarrow> nat) \<Rightarrow> epub_file \<Rightarrow> trace \<Rightarrow> trace \<times> (error + import_result)" where
  "parseEpub signal time file tr =
     (case load file of
        Some e \<Rightarrow> (tr\<lparr>clock := clock tr + 2\<rparr>, Inl e)
      | None \<Rightarrow>
          if signal (clock tr + 2) then (tr\<lparr>clock := clock tr + 2\<rparr>, Inl Aborted)
          else
            (case package file of
               Inl e \<Rightarrow> (tr\<lparr>clock := clock tr + 4\<rparr>, Inl e)
             | Inr pkg \<Rightarrow>
                 if length (spineItems pkg) = 0 then (tr\<lparr>clock := clock tr + 4\<rparr>, Inl InvalidEpub)
                 else
                   (case epub_batches signal time pkg 0
                           (tr\<lparr>clock := clock tr + (if ncx_read pkg then 5 else 4)\<rparr>) ([], 0) of
                      (tr', Inl e) \<Rightarrow> (tr', Inl e)
                    | (tr', Inr chapters) \<Rightarrow>
                        if length chapters = 0 then (tr', Inl EmptyEpub)
                        else (tr', Inr \<lparr>r_title = bookTitle pkg, r_chapters = chapters\<rparr>))))"

definition parseFile_epub ::
  "(nat \<Rightarrow> bool) \<Rightarrow> (nat \<Rightarrow> nat) \<Rightarrow> epub_file \<Rightarrow> trace \<times> (error + import_result)" where
  "parseFile_epub signal time file =
     (case parseEpub signal time file \<lparr>clock = 0, calls = [(0, 0)]\<rparr> of
        (tr, Inl e) \<Rightarrow> (tr, Inl e)
      | (tr, Inr result) \<Rightarrow> (tr\<lparr>calls := calls tr @ [(clock tr, 100)]\<rparr>, Inr result))"

section \<open>Properties of the readers\<close>

subsection \<open>Promise.all\<close>

lemma settle_Inr:
  "settle ps ks vals = Inr vals' \<Longrightarrow>
     length vals' = length vals
     \<and> (\<forall>k<length vals. vals' ! k = (if k \<in> set ks then Some (projr (ps ! k)) else vals ! k))
     \<and> (\<forall>k\<in>set ks. \<not> isl (ps ! k))"
proof (induction ks arbitrary: vals)
  case Nil
  then show ?case by simp
next
  case (Cons k ks)
  from Cons.prems obtain v where v: "ps ! k = Inr v"
    and r: "settle ps ks (vals[k := Some v]) = Inr vals'"
    by (auto split: sum.splits)
  from Cons.IH [OF r] v show ?case by (auto simp: nth_list_update)
qed

lemma settle_ok:
  "\<forall>k\<in>set ks. \<not> isl (ps ! k) \<Longrightarrow> \<exists>vals'. settle ps ks vals = Inr vals'"
proof (induction ks arbitrary: vals)
  case Nil
  then show ?case by simp
next
  case (Cons k ks)
  then obtain v where "ps ! k = Inr v" by (cases "ps ! k") auto
  with Cons show ?case by auto
qed

lemma settle_err:
  "\<exists>k\<in>set ks. isl (ps ! k) \<Longrightarrow> \<forall>k\<in>set ks. k < length ps \<Longrightarrow>
     \<exists>e. settle ps ks vals = Inl e \<and> Inl e \<in> set ps"
proof (induction ks arbitrary: vals)
  case Nil
  then show ?case by simp
next
  case (Cons k ks)
  show ?case
  proof (cases "ps ! k")
    case (Inl e)
    with Cons.prems(2) have "Inl e \<in> set ps" by (metis list.set_intros(1) nth_mem)
    with Inl show ?thesis by simp
  next
    case (Inr v)
    with Cons.prems have "\<exists>k\<in>set ks. isl (ps ! k)" "\<forall>k\<in>set ks. k < length ps" by auto
    from Cons.IH [OF this] Inr show ?thesis by simp
  qed
qed

lemma promise_all_Inr:
  assumes "promise_all time ps = Inr vs"
  shows "ps = map Inr vs"
proof -
  let ?ks = "sort_key time [0..<length ps]"
  from assms obtain vals' where s: "settle ps ?ks (replicate (length ps) None) = Inr vals'"
    and vs: "vs = map the vals'"
    by (auto simp: promise_all_def split: sum.splits)
  from settle_Inr [OF s] have len: "length vals' = length ps"
    and nth: "\<And>k. k < length ps \<Longrightarrow> vals' ! k = Some (projr (ps ! k))"
    and ok: "\<And>k. k < length ps \<Longrightarrow> \<not> isl (ps ! k)"
    by auto
  show ?thesis
  proof (rule nth_equalityI)
    show "length ps = length (map Inr vs)" using vs len by simp
  next
    fix k assume k: "k < length ps"
    with ok [OF k] nth [OF k] vs len show "ps ! k = map Inr vs ! k"
      by (cases "ps ! k") auto
  qed
qed

lemma promise_all_ok: "promise_all time (map Inr vs) = Inr vs"
proof -
  let ?ps = "map Inr vs :: (error + 'a) list"
  have "\<forall>k\<in>set (sort_key time [0..<length ?ps]). \<not> isl (?ps ! k)" by simp
  from settle_ok [OF this, of "replicate (length ?ps) None"]
  obtain vs' where "promise_all time ?ps = Inr vs'"
    by (auto simp: promise_all_def)
  with promise_all_Inr [OF this] show ?thesis by (simp add: inj_map_eq_map [OF inj_Inr])
qed

lemma promise_all_err:
  assumes "\<exists>p\<in>set ps. isl p"
  shows "\<exists>e. promise_all time ps = Inl e \<and> Inl e \<in> set ps"
proof -
  let ?ks = "sort_key time [0..<length ps]"
  from assms obtain k where "k < length ps" "isl (ps ! k)" by (auto simp: in_set_conv_nth)
  then have "\<exists>k\<in>set ?ks. isl (ps ! k)" by auto
  moreover have "\<forall>k\<in>set ?ks. k < length ps" by simp
  ultimately obtain e where "settle ps ?ks (replicate (length ps) None) = Inl e" "Inl e \<in> set ps"
    using settle_err by blast
  then show ?thesis by (auto simp: promise_all_def)
qed

subsection \<open>The glyph-run walk\<close>

lemma scale_mantissa_numeral:
  "scale_mantissa (numeral k) m e =
     (if m < 2 ^ 52 \<and> - 1074 < e then scale_mantissa (pred_numeral k) (2 * m) (e - 1)
      else if 2 ^ 53 \<le> m then scale_mantissa (pred_numeral k) (m / 2) (e + 1)
      else (m, e))"
  by (simp add: numeral_eq_Suc)

lemmas fl_eval = fl_def scale_mantissa_numeral round_even_def pow2_def dbl_def js_round_def Let_def

text \<open>The products of the source at the font heights 10 and 45: \<^verbatim>\<open>10 * 1.4\<close> is 14, and
  \<^verbatim>\<open>45 * 1.4\<close> is the double below 63.\<close>

lemma fl_examples:
  "fl (10 * fl 1.4) = 14" "fl (10 * fl 0.4) = 4" "fl (10 * fl 0.3) = 3"
  "fl (45 * fl 1.4) = 8866461766385663 / 2 ^ 47" "fl (45 * fl 1.4) < 63"
  by (simp_all add: fl_eval)

text \<open>
  At the font height 45 a vertical distance of 63 exceeds the rounded product
  \<^verbatim>\<open>45 * 1.4\<close>, so the walk starts a paragraph there, although 63 is the exact product.
\<close>

lemma separator_rounded_threshold:
  "separator \<lparr>parts = [], lastY = 0, lastX = Finite 0, lastWidth = 0\<rparr>
             \<lparr>str = [], tx = 0, ty = 63, th = 45, width = None\<rparr> = [[10, 10]]"
  by (simp add: separator_def fl_eval)

lemmas pdf_eval = page_text_def step_def separator_def width_or_0_def Let_def asc_def
  parsePdf_def pdf_batches.simps promise_all_def batch_of_def store_batch_def BATCH_SIZE_def

text \<open>
  What the walk does between two items when the earlier baseline is not the value
  \<open>- 1\<close>: on the same visual line (the vertical distance exceeds neither
  \<^verbatim>\<open>fontHeight * 1.4\<close> nor \<^verbatim>\<open>fontHeight * 0.4\<close>) exactly one space when the horizontal
  gap exceeds \<^verbatim>\<open>fontHeight * 0.3\<close>, and nothing otherwise, all quantities being the
  doubles that the source computes.
\<close>

lemma separator_same_line:
  assumes "lastY w \<noteq> - 1"
    and "\<not> num_gt (num_abs (dbl (ty it - lastY w))) (dbl (th it * fl 1.4))"
    and "\<not> num_gt (num_abs (dbl (ty it - lastY w))) (dbl (th it * fl 0.4))"
  shows "separator w it
           = (if num_gt (num_sub (tx it) (lastX w)) (dbl (th it * fl 0.3)) then [[32]] else [])"
  using assms by (simp add: separator_def Let_def)

text \<open>
  Claim C5 (every pair of consecutive fragments on the same visual line gets exactly one
  space when the horizontal gap exceeds 0.3 font heights) fails on the code when the
  earlier fragment's baseline is \<open>- 1\<close>: the walk uses \<open>lastY = - 1\<close> as its mark for
  ``no previous item'', so it takes the second fragment for the first of the page and
  pushes no separator at all. Two fragments ``A'' and ``B'' of font height 10 on the
  baseline \<open>- 1\<close>, the first ending at x = 10 and the second starting at x = 15 (a gap of
  0.5 font heights), come out as ``AB''; the same fragments on the baseline 0 come out as
  ``A B''.
\<close>

theorem sentinel_baseline_drops_space:
  "page_text [\<lparr>str = asc ''A'', tx = 0, ty = - 1, th = 10, width = Some 10\<rparr>,
              \<lparr>str = asc ''B'', tx = 15, ty = - 1, th = 10, width = Some 5\<rparr>] = asc ''AB''
   \<and> \<bar>(- 1 :: real) - (- 1)\<bar> \<le> 10 * 0.4 \<and> (15 :: real) - (0 + 10) > 10 * 0.3
   \<and> page_text [\<lparr>str = asc ''A'', tx = 0, ty = 0, th = 10, width = Some 10\<rparr>,
                \<lparr>str = asc ''B'', tx = 15, ty = 0, th = 10, width = Some 5\<rparr>] = asc ''A B''"
  by (simp add: pdf_eval fl_eval)

subsection \<open>parsePdf\<close>

lemma batch_of_Suc:
  "batch_of pages (Suc i0)
     = map (\<lambda>j. map_sum id page_text (pages ! (i0 + j))) [0..<min BATCH_SIZE (length pages - i0)]"
  by (simp add: batch_of_def)

lemma store_batch_Suc:
  "store_batch (Suc i0) bs pt = fold (\<lambda>j a. a[i0 + j := Some (bs ! j)]) [0..<length bs] pt"
  by (simp add: store_batch_def)

lemma fold_update_nth:
  "length (fold (\<lambda>j a. a[i0 + j := Some (bs ! j)]) [0..<m] pt) = length pt
   \<and> (\<forall>k<length pt. fold (\<lambda>j a. a[i0 + j := Some (bs ! j)]) [0..<m] pt ! k
         = (if i0 \<le> k \<and> k < i0 + m then Some (bs ! (k - i0)) else pt ! k))"
proof (induction m)
  case 0
  then show ?case by auto
next
  case (Suc m)
  then have IH: "length (fold (\<lambda>j a. a[i0 + j := Some (bs ! j)]) [0..<m] pt) = length pt"
    "\<And>k. k < length pt \<Longrightarrow> fold (\<lambda>j a. a[i0 + j := Some (bs ! j)]) [0..<m] pt ! k
         = (if i0 \<le> k \<and> k < i0 + m then Some (bs ! (k - i0)) else pt ! k)"
    by auto
  show ?case
  proof (intro conjI allI impI)
    show "length (fold (\<lambda>j a. a[i0 + j := Some (bs ! j)]) [0..<Suc m] pt) = length pt"
      using IH(1) by simp
  next
    fix k assume k: "k < length pt"
    show "fold (\<lambda>j a. a[i0 + j := Some (bs ! j)]) [0..<Suc m] pt ! k
            = (if i0 \<le> k \<and> k < i0 + Suc m then Some (bs ! (k - i0)) else pt ! k)"
    proof (cases "k = i0 + m")
      case True
      with k IH(1) show ?thesis by simp
    next
      case False
      with k IH show ?thesis by (auto simp: nth_list_update)
    qed
  qed
qed

lemma store_batch_nth:
  shows "length (store_batch (Suc i0) bs pt) = length pt"
    and "k < length pt \<Longrightarrow> store_batch (Suc i0) bs pt ! k
           = (if i0 \<le> k \<and> k < i0 + length bs then Some (bs ! (k - i0)) else pt ! k)"
  using fold_update_nth [of i0 bs "length bs" pt] by (simp_all add: store_batch_Suc)

lemma all_Inr: "\<forall>p\<in>set ps. \<not> isl p \<Longrightarrow> ps = map Inr (map projr ps)"
proof (induction ps)
  case Nil
  then show ?case by simp
next
  case (Cons a ps)
  then show ?case by (cases a) auto
qed

lemma batch_of_ok:
  assumes "\<forall>p\<in>set pages. \<not> isl p"
  shows "batch_of pages (Suc i0)
           = map Inr (map (\<lambda>j. page_text (projr (pages ! (i0 + j))))
                          [0..<min BATCH_SIZE (length pages - i0)])"
proof -
  have "map_sum id page_text (pages ! (i0 + j)) = Inr (page_text (projr (pages ! (i0 + j))))"
    if "j < min BATCH_SIZE (length pages - i0)" for j
  proof -
    from that have "i0 + j < length pages" by auto
    with assms have "\<not> isl (pages ! (i0 + j))" by simp
    then show ?thesis by (cases "pages ! (i0 + j)") auto
  qed
  then show ?thesis by (simp add: batch_of_Suc)
qed

lemma pdf_batches_ok:
  "\<forall>p\<in>set pages. \<not> isl p \<Longrightarrow> 1 \<le> i \<Longrightarrow> length pt = length pages \<Longrightarrow>
   (\<forall>k<length pages. Suc k < i \<longrightarrow> pt ! k = Some (page_text (projr (pages ! k)))) \<Longrightarrow>
   pdf_batches (\<lambda>n. False) time pages i c pt
     = Inr (map (\<lambda>p. Some (page_text (projr p))) pages)"
proof (induction "\<lambda>n::nat. False" time pages i c pt rule: pdf_batches.induct)
  case (1 time pages i c pt)
  note ok = "1.prems"(1) and len = "1.prems"(3) and inv0 = "1.prems"(4)
  from "1.prems"(2) obtain i0 where i: "i = Suc i0" by (cases i) auto
  show ?case
  proof (cases "i \<le> length pages")
    case False
    with len inv0 have "pt = map (\<lambda>p. Some (page_text (projr p))) pages"
      by (intro nth_equalityI) auto
    with False show ?thesis by (subst pdf_batches.simps) simp
  next
    case True
    let ?m = "min BATCH_SIZE (length pages - i0)"
    let ?bs = "map (\<lambda>j. page_text (projr (pages ! (i0 + j)))) [0..<?m]"
    have b: "batch_of pages i = map Inr ?bs"
      unfolding i using batch_of_ok [OF ok] .
    have pa: "promise_all (\<lambda>j. time (i + j)) (batch_of pages i) = Inr ?bs"
      unfolding b by (rule promise_all_ok)
    note sb = store_batch_nth [where ?i0.0 = i0 and bs = ?bs and pt = pt]
    have inv: "\<forall>k<length pages. Suc k < i + BATCH_SIZE \<longrightarrow>
                 store_batch i ?bs pt ! k = Some (page_text (projr (pages ! k)))"
    proof (intro allI impI)
      fix k assume k: "k < length pages" "Suc k < i + BATCH_SIZE"
      show "store_batch i ?bs pt ! k = Some (page_text (projr (pages ! k)))"
      proof (cases "k < i0")
        case True
        with k sb(2) [where k = k] len inv0 i show ?thesis by simp
      next
        case False
        with k i have r: "i0 \<le> k" "k < i0 + ?m" "k - i0 < ?m" "i0 + (k - i0) = k" by auto
        from r(3) have "?bs ! (k - i0) = page_text (projr (pages ! (i0 + (k - i0))))"
          by (simp del: add_diff_inverse_nat)
        moreover have "store_batch i ?bs pt ! k = Some (?bs ! (k - i0))"
          using sb(2) [where k = k] r(1,2) k(1) len i by (simp only: length_map length_upt diff_zero if_True simp_thms)
        ultimately show ?thesis using r(4) by simp
      qed
    qed
    have "pdf_batches (\<lambda>n. False) time pages (i + BATCH_SIZE) (c + 1) (store_batch i ?bs pt)
            = Inr (map (\<lambda>p. Some (page_text (projr p))) pages)"
      using "1.hyps" [OF True _ pa ok] len sb(1) inv i by simp
    with True pa show ?thesis by (subst pdf_batches.simps) simp
  qed
qed

lemma batch_of_err:
  assumes "Inl e \<in> set (batch_of pages (Suc i0))"
  shows "Inl e \<in> set pages"
proof -
  from assms obtain j where j: "j < min BATCH_SIZE (length pages - i0)"
    and e: "map_sum id page_text (pages ! (i0 + j)) = Inl e"
    by (auto simp: batch_of_Suc)
  from j have "i0 + j < length pages" by auto
  moreover from e have "pages ! (i0 + j) = Inl e" by (cases "pages ! (i0 + j)") auto
  ultimately show ?thesis by (metis nth_mem)
qed

lemma pdf_batches_err:
  "1 \<le> i \<Longrightarrow> \<exists>k<length pages. i \<le> Suc k \<and> isl (pages ! k) \<Longrightarrow>
     \<exists>e. pdf_batches (\<lambda>n. False) time pages i c pt = Inl e \<and> Inl e \<in> set pages"
proof (induction "\<lambda>n::nat. False" time pages i c pt rule: pdf_batches.induct)
  case (1 time pages i c pt)
  from "1.prems"(1) obtain i0 where i: "i = Suc i0" by (cases i) auto
  from "1.prems"(2) i obtain k where k: "k < length pages" "i0 \<le> k" "isl (pages ! k)" by auto
  then have il: "i \<le> length pages" using i by simp
  show ?case
  proof (cases "promise_all (\<lambda>j. time (i + j)) (batch_of pages i)")
    case (Inl e)
    have "\<exists>p\<in>set (batch_of pages i). isl p"
    proof (rule ccontr)
      assume "\<not> (\<exists>p\<in>set (batch_of pages i). isl p)"
      then have "batch_of pages i = map Inr (map projr (batch_of pages i))"
        by (intro all_Inr) simp
      then have "promise_all (\<lambda>j. time (i + j)) (batch_of pages i) = Inr (map projr (batch_of pages i))"
        using promise_all_ok by metis
      with Inl show False by simp
    qed
    from promise_all_err [OF this, of "\<lambda>j. time (i + j)"] Inl
    have "Inl e \<in> set (batch_of pages i)" by auto
    from batch_of_err [OF this [unfolded i]] Inl il show ?thesis
      by (subst pdf_batches.simps) simp
  next
    case (Inr bs)
    from promise_all_Inr [OF Inr] have b: "batch_of pages (Suc i0) = map Inr bs" unfolding i .
    have "\<not> (k < i0 + BATCH_SIZE)"
    proof
      assume "k < i0 + BATCH_SIZE"
      with k have j: "k - i0 < min BATCH_SIZE (length pages - i0)" "i0 + (k - i0) = k" by auto
      from j(1) have "batch_of pages (Suc i0) ! (k - i0) = map_sum id page_text (pages ! (i0 + (k - i0)))"
        unfolding batch_of_Suc by (simp del: add_diff_inverse_nat)
      with j(2) have "batch_of pages (Suc i0) ! (k - i0) = map_sum id page_text (pages ! k)" by simp
      moreover have "length bs = min BATCH_SIZE (length pages - i0)"
        using arg_cong [OF b, of length] by (simp add: batch_of_Suc)
      then have "k - i0 < length bs" using j(1) by simp
      ultimately have "map_sum id page_text (pages ! k) = Inr (bs ! (k - i0))" using b by simp
      with k(3) show False by (cases "pages ! k") auto
    qed
    with k i have "\<exists>k<length pages. i + BATCH_SIZE \<le> Suc k \<and> isl (pages ! k)"
      by (intro exI [of _ k]) auto
    moreover have "1 \<le> i + BATCH_SIZE" using i by simp
    ultimately have "\<exists>e. pdf_batches (\<lambda>n. False) time pages (i + BATCH_SIZE) (c + 1) (store_batch i bs pt) = Inl e
                        \<and> Inl e \<in> set pages"
      using "1.hyps" [OF il _ Inr] by simp
    with Inr il show ?thesis
      by (subst pdf_batches.simps) simp
  qed
qed

text \<open>
  Claim C4 as stated fails: a page that fails to decode is not skipped. Its rejection
  passes through \<^verbatim>\<open>Promise.all\<close> and the \<^verbatim>\<open>await\<close> of the batch, nothing catches it,
  and \<^verbatim>\<open>parsePdf\<close> fails as a whole. Here page 1 fails and page 2 decodes.
\<close>

theorem page_failure_not_skipped_counterexample:
  "parsePdf (\<lambda>n. False) (\<lambda>k. 0)
     (Inr [Inl (LibraryError 1), Inr [\<lparr>str = asc ''B'', tx = 15, ty = 0, th = 10, width = Some 5\<rparr>]])
   = Inl (LibraryError 1)"
  by (simp add: pdf_eval upt_rec [of 0] upt_rec [of 1] upt_rec [of 2])

text \<open>
  Claim C4, amended. Failure to open the document is fatal; so is the failure of any
  single page: without cancellation \<^verbatim>\<open>parsePdf\<close> then fails with the error of one of the
  failing pages and returns no text, and no page is skipped. When every page decodes, the
  result is the texts of all pages, in page order, joined by a blank line.
\<close>

theorem page_failure_is_fatal:
  "(\<forall>e. doc = Inl e \<longrightarrow> parsePdf signal time doc = Inl e)
   \<and> (\<forall>pages. doc = Inr pages \<and> (\<exists>p\<in>set pages. isl p) \<longrightarrow>
        (\<exists>e. parsePdf (\<lambda>n. False) time doc = Inl e \<and> Inl e \<in> set pages))
   \<and> (\<forall>pages. doc = Inr pages \<and> (\<forall>p\<in>set pages. \<not> isl p) \<longrightarrow>
        parsePdf (\<lambda>n. False) time doc = Inr (join [10, 10] (map (\<lambda>p. page_text (projr p)) pages)))"
proof (intro conjI allI impI)
  fix e assume "doc = Inl e"
  then show "parsePdf signal time doc = Inl e" by (simp add: parsePdf_def)
next
  fix pages assume a: "doc = Inr pages \<and> (\<exists>p\<in>set pages. isl p)"
  then have "\<exists>k<length pages. 1 \<le> Suc k \<and> isl (pages ! k)" by (auto simp: in_set_conv_nth)
  from pdf_batches_err [OF _ this, of time 2 "replicate (length pages) None"] a
  show "\<exists>e. parsePdf (\<lambda>n. False) time doc = Inl e \<and> Inl e \<in> set pages"
    by (auto simp: parsePdf_def)
next
  fix pages assume a: "doc = Inr pages \<and> (\<forall>p\<in>set pages. \<not> isl p)"
  then have "pdf_batches (\<lambda>n. False) time pages 1 2 (replicate (length pages) None)
               = Inr (map (\<lambda>p. Some (page_text (projr p))) pages)"
    by (intro pdf_batches_ok) auto
  with a show "parsePdf (\<lambda>n. False) time doc = Inr (join [10, 10] (map (\<lambda>p. page_text (projr p)) pages))"
    by (simp add: parsePdf_def comp_def)
qed

text \<open>Witness for C4: a document that does not open, one with a failing page, and one
  whose two pages decode.\<close>

theorem page_failure_is_fatal_witness:
  "parsePdf (\<lambda>n. False) (\<lambda>k. 0) (Inl (LibraryError 7)) = Inl (LibraryError 7)
   \<and> parsePdf (\<lambda>n. False) (\<lambda>k. 0)
       (Inr [Inr [\<lparr>str = asc ''A'', tx = 0, ty = 0, th = 10, width = None\<rparr>], Inl (LibraryError 1)])
     = Inl (LibraryError 1)
   \<and> parsePdf (\<lambda>n. False) (\<lambda>k. 0)
       (Inr [Inr [\<lparr>str = asc ''A'', tx = 0, ty = 0, th = 10, width = None\<rparr>],
             Inr [\<lparr>str = asc ''B'', tx = 0, ty = 0, th = 10, width = None\<rparr>]])
     = Inr (asc ''A'' @ [10, 10] @ asc ''B'')"
proof -
  let ?a = "Inr [\<lparr>str = asc ''A'', tx = 0, ty = 0, th = 10, width = None\<rparr>] :: page"
  let ?b = "Inr [\<lparr>str = asc ''B'', tx = 0, ty = 0, th = 10, width = None\<rparr>] :: page"
  have 1: "parsePdf (\<lambda>n. False) (\<lambda>k. 0) (Inl (LibraryError 7)) = Inl (LibraryError 7)"
    using page_failure_is_fatal [of "Inl (LibraryError 7)" "\<lambda>n. False" "\<lambda>k. 0"] by simp
  have 2: "parsePdf (\<lambda>n. False) (\<lambda>k. 0) (Inr [?a, Inl (LibraryError 1)]) = Inl (LibraryError 1)"
    using page_failure_is_fatal [of "Inr [?a, Inl (LibraryError 1)]" "\<lambda>n. False" "\<lambda>k. 0"] by auto
  have 3: "parsePdf (\<lambda>n. False) (\<lambda>k. 0) (Inr [?a, ?b]) = Inr (asc ''A'' @ [10, 10] @ asc ''B'')"
    using page_failure_is_fatal [of "Inr [?a, ?b]" "\<lambda>n. False" "\<lambda>k. 0"]
    by (simp add: page_text_def step_def separator_def asc_def)
  from 1 2 3 show ?thesis by simp
qed

subsection \<open>parseEpub\<close>

text \<open>The percentage reported after the last batch.\<close>

lemma pct_last: "js_round (fl (fl 1 * 90)) = 90"
  by (simp add: fl_eval)

text \<open>After 70 of 200 entries the rounded product is below 31.5 and the percentage is 31.\<close>

lemma pct_70_of_200: "js_round (fl (fl (70 / 200) * 90)) = 31"
  by (simp add: fl_eval)

lemmas epub_eval = parseFile_epub_def parseEpub_def epub_batches.simps promise_all_def EPUB_BATCH_def
  default_title_def kw_Chuong_def decimal.simps Let_def asc_def

text \<open>
  The reading order as the spec words it: go through the spine in order, take the draft of
  every entry that yields one (\<open>fetch\<close>: the entry has a manifest item and its reader
  returns a chapter), and give the untitled ones the default title with a running count.
  Neither batches nor completion times appear in it.
\<close>

definition fetch :: "epub \<Rightarrow> jstring \<Rightarrow> ChapterDraft option" where
  "fetch pkg itemId =
     (case manifest pkg itemId of
        None \<Rightarrow> None
      | Some href \<Rightarrow> (case entry pkg href of Inr (Some d) \<Rightarrow> Some d | _ \<Rightarrow> None))"

definition spine_drafts :: "epub \<Rightarrow> ChapterDraft list" where
  "spine_drafts pkg = List.map_filter (fetch pkg) (spineItems pkg)"

fun number_titles :: "nat \<Rightarrow> ChapterDraft list \<Rightarrow> ChapterDraft list" where
  "number_titles n [] = []"
| "number_titles n (d # ds) =
     \<lparr>title = (if title d = [] then default_title (n + 1) else title d), content = content d\<rparr>
       # number_titles (n + 1) ds"

lemma number_titles_append:
  "number_titles n (xs @ ys) = number_titles n xs @ number_titles (n + length xs) ys"
  by (induction xs arbitrary: n) auto

lemma length_number_titles [simp]: "length (number_titles n xs) = length xs"
  by (induction xs arbitrary: n) auto

lemma push_results_eq:
  "push_results vs (chs, n)
     = (chs @ number_titles n (List.map_filter (\<lambda>v. v) vs), n + length (List.map_filter (\<lambda>v. v) vs))"
proof (induction vs arbitrary: chs n)
  case Nil
  then show ?case by (simp add: List.map_filter_simps)
next
  case (Cons v vs)
  then show ?case by (cases v) (simp_all add: List.map_filter_simps)
qed

lemma map_sum_Inr_D: "map_sum id f x = Inr y \<Longrightarrow> \<exists>z. x = Inr z \<and> y = f z"
  by (cases x) auto

lemma batch_promises_Inr:
  "batch_promises pkg ids = Inr ps \<Longrightarrow> promise_all time ps = Inr vs \<Longrightarrow>
     List.map_filter (\<lambda>v. v) vs = List.map_filter (fetch pkg) ids"
proof (induction ids arbitrary: ps vs)
  case Nil
  then have "ps = []" by simp
  with Nil promise_all_Inr [of time ps vs] show ?case by (simp add: List.map_filter_simps)
next
  case (Cons itemId rest)
  from promise_all_Inr [OF Cons.prems(2)] have ps: "ps = map Inr vs" .
  from Cons.prems(1) obtain p ps' where b: "batch_promises pkg rest = Inr ps'" and pp: "ps = p # ps'"
    and p: "p = (case manifest pkg itemId of None \<Rightarrow> Inr None | Some href \<Rightarrow> entry pkg href)"
    by (auto split: option.splits dest!: map_sum_Inr_D)
  from ps pp obtain v vs' where vs: "vs = v # vs'" "p = Inr v" "ps' = map Inr vs'" by (cases vs) auto
  have "promise_all time ps' = Inr vs'" unfolding vs(3) by (rule promise_all_ok)
  from Cons.IH [OF b this] have IH: "List.map_filter (\<lambda>v. v) vs' = List.map_filter (fetch pkg) rest" .
  have "fetch pkg itemId = v"
  proof (cases "manifest pkg itemId")
    case None
    with p vs(2) show ?thesis by (simp add: fetch_def)
  next
    case (Some href)
    with p vs(2) have "entry pkg href = Inr v" by simp
    with Some show ?thesis by (cases v) (simp_all add: fetch_def)
  qed
  with IH vs(1) show ?case by (cases v) (simp_all add: List.map_filter_simps)
qed

lemma map_filter_append: "List.map_filter f (xs @ ys) = List.map_filter f xs @ List.map_filter f ys"
  by (simp add: List.map_filter_def)

lemma epub_batches_spine:
  "epub_batches signal time pkg i tr acc = (tr', Inr chapters) \<Longrightarrow>
   acc = (number_titles 0 (List.map_filter (fetch pkg) (take i (spineItems pkg))),
          length (List.map_filter (fetch pkg) (take i (spineItems pkg)))) \<Longrightarrow>
   chapters = number_titles 0 (spine_drafts pkg)"
proof (induction signal time pkg i tr acc rule: epub_batches.induct)
  case (1 signal time pkg i tr acc)
  let ?n = "length (spineItems pkg)"
  note run = "1.prems"(1) [unfolded epub_batches.simps [of signal time pkg i tr acc]]
  show ?case
  proof (cases "i < ?n")
    case False
    with run "1.prems"(2) show ?thesis by (simp add: spine_drafts_def)
  next
    case True
    let ?batchEnd = "min (i + EPUB_BATCH) ?n"
    let ?ids = "take (?batchEnd - i) (drop i (spineItems pkg))"
    from run True have ns: "\<not> signal (clock tr)" by (auto split: if_splits)
    from run True ns obtain ps where ps: "batch_promises pkg ?ids = Inr ps"
      by (auto simp: Let_def split: sum.splits)
    from run True ns ps obtain vs where vs: "promise_all (\<lambda>j. time (i + j)) ps = Inr vs"
      by (auto simp: Let_def split: sum.splits)
    let ?tr = "\<lparr>clock = clock tr + 1,
               calls = calls tr @ [(clock tr + 1, js_round (fl (fl (real ?batchEnd / real ?n) * 90)))]\<rparr>"
    from run True ns ps vs have next_run:
      "epub_batches signal time pkg (i + EPUB_BATCH) ?tr (push_results vs acc) = (tr', Inr chapters)"
      by (simp add: Let_def)
    have ids: "take (i + EPUB_BATCH) (spineItems pkg) = take i (spineItems pkg) @ ?ids"
    proof -
      have "?batchEnd - i = min EPUB_BATCH (?n - i)" by auto
      then have "?ids = take EPUB_BATCH (drop i (spineItems pkg))" by (simp add: min_def)
      then show ?thesis by (simp add: take_add)
    qed
    have mf: "List.map_filter (\<lambda>v. v) vs = List.map_filter (fetch pkg) ?ids"
      using batch_promises_Inr [OF ps vs] .
    have acc': "push_results vs acc
        = (number_titles 0 (List.map_filter (fetch pkg) (take (i + EPUB_BATCH) (spineItems pkg))),
           length (List.map_filter (fetch pkg) (take (i + EPUB_BATCH) (spineItems pkg))))"
      unfolding "1.prems"(2) push_results_eq ids mf
      by (simp add: map_filter_append number_titles_append)
    from "1.IH" [OF True ns refl ps vs refl next_run acc'] show ?thesis .
  qed
qed

text \<open>
  Claim C6. Whatever the completion times of the concurrent reads and whatever the signal
  does, when the import of a package returns a result, its chapters are exactly the drafts
  of the spine entries in spine order. (The package branch of \<^verbatim>\<open>parseFile\<close> returns the
  result of \<^verbatim>\<open>parseEpub\<close> as it is: the heading detector is not run on it.)
\<close>

theorem epub_chapters_follow_spine:
  assumes "parseFile_epub signal time file = (tr', Inr result)" and "package file = Inr pkg"
  shows "r_chapters result = number_titles 0 (spine_drafts pkg)"
proof -
  from assms obtain tr0 tr1 where
    run: "epub_batches signal time pkg 0 tr0 ([], 0) = (tr1, Inr (r_chapters result))"
    by (auto simp: parseFile_epub_def parseEpub_def split: option.splits if_splits sum.splits prod.splits)
  from epub_batches_spine [OF run] show ?thesis by (simp add: List.map_filter_simps)
qed

text \<open>
  Witness for C6: the spine lists A, B, C; the reads complete in the order C, B, A; the
  chapters come out as A, B, C.
\<close>

definition three_chapters :: epub where
  "three_chapters =
     \<lparr>bookTitle = asc ''Book'',
      manifest = (\<lambda>k. if k = asc ''A'' then Some (asc ''a.xhtml'')
                      else if k = asc ''B'' then Some (asc ''b.xhtml'')
                      else if k = asc ''C'' then Some (asc ''c.xhtml'') else None),
      spineItems = [asc ''A'', asc ''B'', asc ''C''],
      ncx_read = True,
      decodable = (\<lambda>h. None),
      entry = (\<lambda>h. Inr (Some \<lparr>title = h, content = asc ''text of '' @ h\<rparr>))\<rparr>"

lemma three_chapters_run:
  "parseFile_epub (\<lambda>n. False) (\<lambda>k. 3 - k) \<lparr>load = None, package = Inr three_chapters\<rparr>
     = (\<lparr>clock = 6, calls = [(0, 0), (6, 90), (6, 100)]\<rparr>,
        Inr \<lparr>r_title = asc ''Book'',
             r_chapters = [\<lparr>title = asc ''a.xhtml'', content = asc ''text of a.xhtml''\<rparr>,
                           \<lparr>title = asc ''b.xhtml'', content = asc ''text of b.xhtml''\<rparr>,
                           \<lparr>title = asc ''c.xhtml'', content = asc ''text of c.xhtml''\<rparr>]\<rparr>)"
  by (simp add: epub_eval three_chapters_def pct_last upt_rec [of 0] upt_rec [of 1] upt_rec [of 2] upt_rec [of 3])

theorem epub_chapters_follow_spine_witness:
  "parseFile_epub (\<lambda>n. False) (\<lambda>k. 3 - k) \<lparr>load = None, package = Inr three_chapters\<rparr>
     = (\<lparr>clock = 6, calls = [(0, 0), (6, 90), (6, 100)]\<rparr>,
        Inr \<lparr>r_title = asc ''Book'',
             r_chapters = [\<lparr>title = asc ''a.xhtml'', content = asc ''text of a.xhtml''\<rparr>,
                           \<lparr>title = asc ''b.xhtml'', content = asc ''text of b.xhtml''\<rparr>,
                           \<lparr>title = asc ''c.xhtml'', content = asc ''text of c.xhtml''\<rparr>]\<rparr>)
   \<and> [\<lparr>title = asc ''a.xhtml'', content = asc ''text of a.xhtml''\<rparr>,
       \<lparr>title = asc ''b.xhtml'', content = asc ''text of b.xhtml''\<rparr>,
       \<lparr>title = asc ''c.xhtml'', content = asc ''text of c.xhtml''\<rparr>]
      = number_titles 0 (spine_drafts three_chapters)"
  using epub_chapters_follow_spine [OF three_chapters_run, of three_chapters] three_chapters_run
  by simp

subsection \<open>Cancellation\<close>

text \<open>
  Claim C9 (once the signal is raised the run ends in the cancellation outcome, yields no
  result and calls the progress callback no more) fails on the code for a package. The
  loop of \<^verbatim>\<open>parseEpub\<close> checks the signal only at the head of a batch; after the batch
  it pushes the chapters and calls the progress callback without looking at the signal,
  and after the last batch nothing checks it again: neither \<^verbatim>\<open>parseEpub\<close> nor the
  package branch of \<^verbatim>\<open>parseFile\<close> (the text and PDF branch does check it after
  \<^verbatim>\<open>parsePdf\<close>). Here a package with one spine entry is read and the signal is raised
  while its only batch is awaited (it is false up to clock 4 and true from clock 5 on): the
  callback is still called twice, with 90 and 100 percent, at clock 5, and the complete
  result is returned.
\<close>

definition one_chapter :: epub where
  "one_chapter =
     \<lparr>bookTitle = asc ''Book'',
      manifest = (\<lambda>k. if k = asc ''c1'' then Some (asc ''c1.xhtml'') else None),
      spineItems = [asc ''c1''],
      ncx_read = False,
      decodable = (\<lambda>h. None),
      entry = (\<lambda>h. Inr (Some \<lparr>title = asc ''One'', content = asc ''Some chapter text''\<rparr>))\<rparr>"

theorem cancel_during_last_epub_batch_returns_result:
  "parseFile_epub (\<lambda>n. 5 \<le> n) (\<lambda>k. 0) \<lparr>load = None, package = Inr one_chapter\<rparr>
     = (\<lparr>clock = 5, calls = [(0, 0), (5, 90), (5, 100)]\<rparr>,
        Inr \<lparr>r_title = asc ''Book'',
             r_chapters = [\<lparr>title = asc ''One'', content = asc ''Some chapter text''\<rparr>]\<rparr>)"
  by (simp add: epub_eval one_chapter_def pct_last)

section \<open>The markup-to-text normalizer (htmlToText)\<close>

text \<open>
  \<^verbatim>\<open>s.replace(re, repl)\<close> for a pattern with the \<^verbatim>\<open>g\<close> flag and a replacement string
  without \<^verbatim>\<open>$\<close>: the matches are found one after the other with \<open>exec_from\<close>, starting
  at \<^verbatim>\<open>lastIndex = 0\<close>; after an empty match \<^verbatim>\<open>lastIndex\<close> is advanced by one. The
  result is the text between the matches (from \<^verbatim>\<open>nextSourcePosition\<close> to the index of
  the match), each match replaced by \<open>repl\<close>, and the rest of the text after the last
  match.
\<close>

function replace_loop :: "regex \<Rightarrow> jstring \<Rightarrow> jstring \<Rightarrow> nat \<Rightarrow> nat \<Rightarrow> jstring" where
  "replace_loop re repl t lastIndex nextSourcePosition =
     (case exec_from re t lastIndex of
        None \<Rightarrow> drop nextSourcePosition t
      | Some m \<Rightarrow>
          substring t nextSourcePosition (m_index m) @ repl
            @ replace_loop re repl t (if m_end m = m_index m then m_end m + 1 else m_end m) (m_end m))"
  by pat_completeness auto
termination
proof (relation "measure (\<lambda>(re, repl, t, lastIndex, nextSourcePosition). Suc (length t) - lastIndex)")
  show "wf (measure (\<lambda>(re, repl, t, lastIndex, nextSourcePosition). Suc (length t) - lastIndex))"
    by simp
next
  fix re repl t lastIndex nextSourcePosition m
  assume e: "exec_from re t lastIndex = Some m"
  from exec_from_match [OF e] obtain j where j: "lastIndex \<le> j" "j \<le> length t" "match_at re t j = Some m"
    by auto
  from match_at_facts(1,2) [OF j(3)] j
  show "((re, repl, t, if m_end m = m_index m then m_end m + 1 else m_end m, m_end m),
         (re, repl, t, lastIndex, nextSourcePosition))
        \<in> measure (\<lambda>(re, repl, t, lastIndex, nextSourcePosition). Suc (length t) - lastIndex)"
    by auto
qed

declare replace_loop.simps [simp del]

definition replace_all :: "regex \<Rightarrow> jstring \<Rightarrow> jstring \<Rightarrow> jstring" where
  "replace_all re repl t = replace_loop re repl t 0 0"

text \<open>
  \<^verbatim>\<open>s.split(c)\<close> for a separator of one code unit: the pieces between the occurrences of
  \<open>c\<close>, none of which contains \<open>c\<close>; a text without \<open>c\<close> gives one piece, the empty text
  one empty piece.
\<close>

fun split :: "cu \<Rightarrow> jstring \<Rightarrow> jstring list" where
  "split c [] = [[]]"
| "split c (x # xs) =
     (if x = c then [] # split c xs
      else (case split c xs of [] \<Rightarrow> [[x]] | l # ls \<Rightarrow> (x # l) # ls))"

text \<open>
  The two patterns of the whitespace clean-up: \<^verbatim>\<open>/[ \t]+/g\<close> and \<^verbatim>\<open>/\n\s*\n\s*\n/g\<close>.
\<close>

definition blanks :: regex where
  "blanks = Plus (Atom is_blank)"

definition nl3 :: regex where
  "nl3 = Seq (Atom is_nl) (Seq (Star (Atom is_ws)) (Seq (Atom is_nl) (Seq (Star (Atom is_ws)) (Atom is_nl))))"

text \<open>
  The last four statements of \<^verbatim>\<open>htmlToText\<close>: runs of blanks and tabs become one space,
  a newline followed by two more newlines with only white space between them becomes two
  newlines, every line is trimmed, and the whole text is trimmed.
\<close>

definition clean_whitespace :: "jstring \<Rightarrow> jstring" where
  "clean_whitespace text0 =
     (let text1 = replace_all blanks [32] text0;
          text2 = replace_all nl3 [10, 10] text1;
          text3 = join [10] (map trim (split 10 text2))
      in trim text3)"

text \<open>
  The statements before them remove the \<^verbatim>\<open>head\<close>, \<^verbatim>\<open>style\<close> and \<^verbatim>\<open>script\<close> elements,
  turn \<^verbatim>\<open>br\<close> and the closing block tags into newlines, remove the remaining tags and
  decode the entities. They are a function from the markup to the intermediate text; it is
  a parameter \<open>strip_markup\<close> here, and what is proved about \<open>htmlToText\<close> holds for every
  such function, so for every intermediate text.
\<close>

definition htmlToText :: "(jstring \<Rightarrow> jstring) \<Rightarrow> jstring \<Rightarrow> jstring" where
  "htmlToText strip_markup html = clean_whitespace (strip_markup html)"

section \<open>Properties of the normalizer\<close>

subsection \<open>Evaluation\<close>

lemmas html_eval = clean_whitespace_def replace_all_def replace_loop.simps exec_from.simps match_at_def
  ms_Star blanks_def nl3_def Plus_def is_nl_def is_blank_def is_ws_def reset_def substring_def
  trim_def Let_def asc_def

lemma clean_whitespace_example:
  "clean_whitespace (asc ''a  b \<newline> \<newline>\<newline> \<newline>\<newline>c\<newline>\<newline>d '') = asc ''a b\<newline>\<newline>c\<newline>\<newline>d''"
  by (simp add: html_eval)

subsection \<open>Patterns without anchors and groups match alike at every position\<close>

text \<open>
  A pattern built without \<open>Bol\<close> and \<open>Group\<close> does not look at what precedes the position
  it starts from: its matches in \<open>t\<close> from position \<open>i\<close> are its matches in \<open>drop i t\<close>
  from position \<open>0\<close>, moved by \<open>i\<close>.
\<close>

fun simple :: "regex \<Rightarrow> bool" where
  "simple Eps = True"
| "simple Bol = False"
| "simple (Atom p) = True"
| "simple (Seq a b) = (simple a \<and> simple b)"
| "simple (Alt a b) = (simple a \<and> simple b)"
| "simple (Star a) = simple a"
| "simple (Upto n a) = simple a"
| "simple (Group k a) = False"

lemma simple_groups: "simple r \<Longrightarrow> groups r = []"
  by (induction r) auto

lemma simple_reset: "simple r \<Longrightarrow> reset r s = s"
  by (simp add: reset_def simple_groups)

lemma apfst_Suc: "apfst Suc s = (Suc (fst s), snd s)"
  by (cases s) simp

lemma ms_shift:
  "simple r \<Longrightarrow> ms r (x # xs) (Suc (fst s), snd s) = map (apfst Suc) (ms r xs s)"
proof (induction r xs s rule: ms.induct)
  case (4 a b t s)
  have "ms (Seq a b) (x # t) (Suc (fst s), snd s)
          = concat (map (ms b (x # t)) (map (apfst Suc) (ms a t s)))"
    using 4 by simp
  also have "\<dots> = concat (map (\<lambda>s1. map (apfst Suc) (ms b t s1)) (ms a t s))"
  proof -
    have "ms b (x # t) (apfst Suc s1) = map (apfst Suc) (ms b t s1)" if "s1 \<in> set (ms a t s)" for s1
      using "4.IH"(2) [OF that] "4.prems" by (cases s1) simp
    then show ?thesis by (simp add: comp_def cong: map_cong)
  qed
  also have "\<dots> = map (apfst Suc) (ms (Seq a b) t s)"
    by (simp add: map_concat comp_def)
  finally show ?case .
next
  case (6 a t s)
  have sa: "simple a" using "6.prems" by simp
  have "ms (Star a) (x # t) (Suc (fst s), snd s)
          = concat (map (\<lambda>s'. if Suc (fst s) < fst s' \<and> fst s' \<le> Suc (length t)
                               then ms (Star a) (x # t) s' else [])
                        (map (apfst Suc) (ms a t s))) @ [(Suc (fst s), snd s)]"
    using "6.IH"(1) [OF sa] sa by (subst ms_Star) (simp add: simple_reset)
  also have "concat (map (\<lambda>s'. if Suc (fst s) < fst s' \<and> fst s' \<le> Suc (length t)
                               then ms (Star a) (x # t) s' else [])
                        (map (apfst Suc) (ms a t s)))
           = concat (map (\<lambda>s1. map (apfst Suc) (if fst s < fst s1 \<and> fst s1 \<le> length t
                                                  then ms (Star a) t s1 else []))
                         (ms a t s))"
  proof -
    have "(if Suc (fst s) < fst (apfst Suc s1) \<and> fst (apfst Suc s1) \<le> Suc (length t)
             then ms (Star a) (x # t) (apfst Suc s1) else [])
          = map (apfst Suc) (if fst s < fst s1 \<and> fst s1 \<le> length t then ms (Star a) t s1 else [])"
      if "s1 \<in> set (ms a t (reset a s))" for s1
    proof (cases "fst s < fst s1 \<and> fst s1 \<le> length t")
      case True
      with "6.IH"(2) [OF that] "6.prems" show ?thesis by (cases s1) simp
    next
      case False
      then show ?thesis by (cases s1) auto
    qed
    then show ?thesis using sa by (simp add: comp_def simple_reset cong: map_cong)
  qed
  also have "\<dots> @ [(Suc (fst s), snd s)] = map (apfst Suc) (ms (Star a) t s)"
    using sa by (subst (2) ms_Star) (simp add: map_concat comp_def simple_reset apfst_Suc)
  finally show ?case .
next
  case (8 n a t s)
  have sa: "simple a" using "8.prems" by simp
  have "ms (Upto (Suc n) a) (x # t) (Suc (fst s), snd s)
          = concat (map (\<lambda>s'. if Suc (fst s) < fst s' then ms (Upto n a) (x # t) s' else [])
                        (map (apfst Suc) (ms a t s))) @ [(Suc (fst s), snd s)]"
    using "8.IH"(1) [OF sa] sa by (simp add: simple_reset)
  also have "concat (map (\<lambda>s'. if Suc (fst s) < fst s' then ms (Upto n a) (x # t) s' else [])
                        (map (apfst Suc) (ms a t s)))
           = concat (map (\<lambda>s1. map (apfst Suc) (if fst s < fst s1 then ms (Upto n a) t s1 else []))
                         (ms a t s))"
  proof -
    have "(if Suc (fst s) < fst (apfst Suc s1) then ms (Upto n a) (x # t) (apfst Suc s1) else [])
          = map (apfst Suc) (if fst s < fst s1 then ms (Upto n a) t s1 else [])"
      if "s1 \<in> set (ms a t (reset a s))" for s1
    proof (cases "fst s < fst s1")
      case True
      with "8.IH"(2) [OF that] sa show ?thesis by (cases s1) simp
    next
      case False
      then show ?thesis by (cases s1) auto
    qed
    then show ?thesis using sa by (simp add: comp_def simple_reset cong: map_cong)
  qed
  also have "\<dots> @ [(Suc (fst s), snd s)] = map (apfst Suc) (ms (Upto (Suc n) a) t s)"
    using sa by (simp add: map_concat comp_def simple_reset apfst_Suc)
  finally show ?case .
qed (auto split: if_splits)

lemma ms_drop:
  "simple r \<Longrightarrow> i \<le> length t \<Longrightarrow>
     ms r t (i, c) = map (apfst ((+) i)) (ms r (drop i t) (0, c))"
proof (induction i arbitrary: t)
  case 0
  then show ?case by (simp add: apfst_def map_prod_def)
next
  case (Suc i)
  then obtain x xs where t: "t = x # xs" by (cases t) auto
  with Suc have "ms r xs (i, c) = map (apfst ((+) i)) (ms r (drop i xs) (0, c))" by simp
  with ms_shift [OF Suc.prems(1), of x xs "(i, c)"] t show ?case
    by (simp add: comp_def apfst_def map_prod_def case_prod_beta)
qed

subsection \<open>The matches of the newline pattern\<close>

text \<open>
  \<open>run_nls xs\<close> counts the newlines in the white space that \<open>xs\<close> starts with, and
  \<open>run_end xs\<close> is the length of the prefix of \<open>xs\<close> that ends at the last of them. The
  newline pattern matches at a position exactly when a newline stands there and at least
  two more follow in the white space after it; being greedy, the match ends at the last
  newline of that white space.
\<close>

lemma ms_Atom_Cons: "ms (Atom p) (x # xs) (0, c) = (if p x then [(1, c)] else [])"
  by simp

lemma ms_Atom_Seq_Cons:
  "simple R \<Longrightarrow>
     ms (Seq (Atom p) R) (x # xs) (0, c) = (if p x then map (apfst Suc) (ms R xs (0, c)) else [])"
  using ms_shift [of R x xs "(0, c)"] by simp

lemma ms_Atom_Seq_Nil: "ms (Seq (Atom p) R) [] (0, c) = []"
  by simp

lemma ms_Star_Atom_Cons:
  "ms (Star (Atom p)) (x # xs) (0, c)
     = (if p x then map (apfst Suc) (ms (Star (Atom p)) xs (0, c)) else []) @ [(0, c)]"
  using ms_shift [of "Star (Atom p)" x xs "(0, c)"]
  by (subst ms_Star) (simp add: reset_def)

lemma ms_Star_Atom_Nil: "ms (Star (Atom p)) [] (0, c) = [(0, c)]"
  by (subst ms_Star) simp

lemma ms_Star_Seq_Cons:
  assumes "simple R"
  shows "ms (Seq (Star (Atom p)) R) (x # xs) (0, c)
     = (if p x then map (apfst Suc) (ms (Seq (Star (Atom p)) R) xs (0, c)) else [])
       @ ms R (x # xs) (0, c)"
proof -
  have sh: "ms R (x # xs) (apfst Suc s1) = map (apfst Suc) (ms R xs s1)" for s1
    using ms_shift [OF assms, of x xs s1] by (simp add: apfst_Suc)
  show ?thesis
    by (simp add: ms_Star_Atom_Cons comp_def sh map_concat)
qed

lemma ms_Star_Seq_Nil: "ms (Seq (Star (Atom p)) R) [] (0, c) = ms R [] (0, c)"
  by (simp add: ms_Star_Atom_Nil)

fun run_nls :: "jstring \<Rightarrow> nat" where
  "run_nls [] = 0"
| "run_nls (x # xs) = (if is_ws x then (if x = 10 then 1 else 0) + run_nls xs else 0)"

fun run_end :: "jstring \<Rightarrow> nat" where
  "run_end [] = 0"
| "run_end (x # xs) =
     (if is_ws x then (if 0 < run_end xs then Suc (run_end xs) else if x = 10 then 1 else 0) else 0)"

lemma is_ws_nl [simp]: "is_ws 10"
  by (simp add: is_ws_def)

lemma run_end_pos: "0 < run_end xs \<longleftrightarrow> 0 < run_nls xs"
  by (induction xs) auto

lemma run_end_le: "run_end xs \<le> length xs"
  by (induction xs) auto

lemma run_nls_after: "run_nls (drop (run_end xs) xs) = 0"
proof (induction xs)
  case Nil
  then show ?case by simp
next
  case (Cons x xs)
  show ?case
  proof (cases "0 < run_end xs")
    case True
    with Cons show ?thesis by simp
  next
    case False
    then have "run_nls xs = 0" using run_end_pos [of xs] by simp
    with False show ?thesis by simp
  qed
qed

definition R3 :: regex where "R3 = Seq (Star (Atom is_ws)) (Atom is_nl)"
definition R2 :: regex where "R2 = Seq (Atom is_nl) R3"
definition R1 :: regex where "R1 = Seq (Star (Atom is_ws)) R2"

lemma nl3_R1: "nl3 = Seq (Atom is_nl) R1"
  by (simp add: nl3_def R1_def R2_def R3_def)

lemma simple_R: "simple R3" "simple R2" "simple R1" "simple nl3"
  by (simp_all add: R3_def R2_def R1_def nl3_def)

lemma R3_Cons:
  "ms R3 (x # xs) (0, c)
     = (if is_ws x then map (apfst Suc) (ms R3 xs (0, c)) else []) @ (if x = 10 then [(1, c)] else [])"
  unfolding R3_def by (subst ms_Star_Seq_Cons) (simp_all add: is_nl_def)

lemma R3_Nil: "ms R3 [] (0, c) = []"
  unfolding R3_def by (simp add: ms_Star_Atom_Nil)

lemma R2_Cons: "ms R2 (x # xs) (0, c) = (if x = 10 then map (apfst Suc) (ms R3 xs (0, c)) else [])"
  unfolding R2_def using ms_Atom_Seq_Cons [OF simple_R(1), of is_nl x xs c] by (simp add: is_nl_def)

lemma R1_Cons:
  "ms R1 (x # xs) (0, c)
     = (if is_ws x then map (apfst Suc) (ms R1 xs (0, c)) else [])
       @ (if x = 10 then map (apfst Suc) (ms R3 xs (0, c)) else [])"
  using ms_Star_Seq_Cons [OF simple_R(2), of is_ws x xs c] R2_Cons [of x xs c]
  by (simp add: R1_def)

lemma R1_Nil: "ms R1 [] (0, c) = []"
  unfolding R1_def R2_def by (simp add: ms_Star_Atom_Nil)

lemma nl3_Cons: "ms nl3 (x # xs) (0, c) = (if x = 10 then map (apfst Suc) (ms R1 xs (0, c)) else [])"
  unfolding nl3_R1 using ms_Atom_Seq_Cons [OF simple_R(3), of is_nl x xs c] by (simp add: is_nl_def)

lemma nl3_Nil: "ms nl3 [] (0, c) = []"
  unfolding nl3_R1 by simp

lemma R3_char:
  "(ms R3 xs (0, c) = [] \<longleftrightarrow> run_nls xs = 0)
   \<and> (ms R3 xs (0, c) \<noteq> [] \<longrightarrow> fst (hd (ms R3 xs (0, c))) = run_end xs)"
proof (induction xs)
  case Nil
  then show ?case by (simp add: R3_Nil)
next
  case (Cons x xs)
  show ?case
  proof (cases "is_ws x")
    case False
    then have "x \<noteq> 10" by auto
    with False show ?thesis by (simp add: R3_Cons)
  next
    case True
    show ?thesis
    proof (cases "ms R3 xs (0, c) = []")
      case e: True
      with Cons have "run_nls xs = 0" by simp
      then have "run_end xs = 0" using run_end_pos [of xs] by simp
      with e True \<open>run_nls xs = 0\<close> show ?thesis by (simp add: R3_Cons)
    next
      case ne: False
      with Cons have "0 < run_nls xs" "fst (hd (ms R3 xs (0, c))) = run_end xs" by auto
      moreover then have "0 < run_end xs" using run_end_pos [of xs] by simp
      ultimately show ?thesis using ne True by (simp add: R3_Cons hd_map hd_append)
    qed
  qed
qed

lemma R1_char:
  "(ms R1 xs (0, c) = [] \<longleftrightarrow> run_nls xs < 2)
   \<and> (ms R1 xs (0, c) \<noteq> [] \<longrightarrow> fst (hd (ms R1 xs (0, c))) = run_end xs)"
proof (induction xs)
  case Nil
  then show ?case by (simp add: R1_Nil)
next
  case (Cons x xs)
  show ?case
  proof (cases "is_ws x")
    case False
    then have "x \<noteq> 10" by auto
    with False show ?thesis by (simp add: R1_Cons)
  next
    case True
    show ?thesis
    proof (cases "ms R1 xs (0, c) = []")
      case e: True
      with Cons have lt: "run_nls xs < 2" by simp
      show ?thesis
      proof (cases "x = 10 \<and> ms R3 xs (0, c) \<noteq> []")
        case True
        with R3_char [of xs c] have "0 < run_nls xs" "fst (hd (ms R3 xs (0, c))) = run_end xs" by auto
        moreover then have "0 < run_end xs" using run_end_pos [of xs] by simp
        ultimately show ?thesis using e True lt by (simp add: R1_Cons hd_map)
      next
        case False
        with R3_char [of xs c] have "x \<noteq> 10 \<or> run_nls xs = 0" by auto
        with e False lt True show ?thesis by (auto simp: R1_Cons)
      qed
    next
      case ne: False
      with Cons have "2 \<le> run_nls xs" "fst (hd (ms R1 xs (0, c))) = run_end xs" by auto
      moreover then have "0 < run_end xs" using run_end_pos [of xs] by simp
      ultimately show ?thesis using ne True by (simp add: R1_Cons hd_map hd_append)
    qed
  qed
qed

lemma match_at_nl3:
  assumes "i < length t"
  shows "match_at nl3 t i = None \<longleftrightarrow> \<not> (t ! i = 10 \<and> 2 \<le> run_nls (drop (Suc i) t))"
    and "match_at nl3 t i = Some m \<Longrightarrow> m_end m = Suc i + run_end (drop (Suc i) t)"
proof -
  have d: "drop i t = t ! i # drop (Suc i) t" using assms by (simp add: Cons_nth_drop_Suc)
  have ms: "ms nl3 t (i, \<lambda>k. None)
          = map (apfst ((+) i)) (if t ! i = 10 then map (apfst Suc) (ms R1 (drop (Suc i) t) (0, \<lambda>k. None)) else [])"
    using ms_drop [OF simple_R(4), of i t "\<lambda>k. None"] assms by (simp add: d nl3_Cons)
  show "match_at nl3 t i = None \<longleftrightarrow> \<not> (t ! i = 10 \<and> 2 \<le> run_nls (drop (Suc i) t))"
    using R1_char [of "drop (Suc i) t" "\<lambda>k. None"]
    by (auto simp: match_at_def ms split: list.splits)
  assume "match_at nl3 t i = Some m"
  then obtain s rest where s: "ms nl3 t (i, \<lambda>k. None) = s # rest" and e: "m_end m = fst s"
    by (auto simp: match_at_def split: list.splits)
  from s ms have ne: "t ! i = 10" "ms R1 (drop (Suc i) t) (0, \<lambda>k. None) \<noteq> []"
    by (auto split: if_splits)
  with s ms have "s = apfst ((+) i) (apfst Suc (hd (ms R1 (drop (Suc i) t) (0, \<lambda>k. None))))"
    by (cases "ms R1 (drop (Suc i) t) (0, \<lambda>k. None)") auto
  with R1_char [of "drop (Suc i) t" "\<lambda>k. None"] ne e
  show "m_end m = Suc i + run_end (drop (Suc i) t)"
    by (cases "hd (ms R1 (drop (Suc i) t) (0, \<lambda>k. None))") auto
qed

lemma match_at_nl3_end: "match_at nl3 t (length t) = None"
  using ms_drop [OF simple_R(4), of "length t" t "\<lambda>k. None"]
  by (simp add: match_at_def nl3_Nil)

subsection \<open>The result of the replacement\<close>

text \<open>
  \<open>ok3 n u\<close>: reading \<open>u\<close> after \<open>n\<close> newlines that no other character than white space
  has followed, one never reads a third newline before a character that is not white
  space.
\<close>

lemma replace_loop_match:
  assumes "match_at re t i = Some m" "i \<le> length t" "i < m_end m"
  shows "replace_loop re repl t i i = repl @ replace_loop re repl t (m_end m) (m_end m)"
proof -
  have "exec_from re t i = Some m" using assms by (simp add: exec_from.simps [of re t i])
  moreover have "m_index m = i" using assms(1) by (rule match_at_bound)
  ultimately show ?thesis using assms(3)
    by (subst replace_loop.simps) (simp add: substring_def)
qed

lemma replace_loop_skip:
  assumes "match_at re t i = None" "i < length t"
  shows "replace_loop re repl t i i = t ! i # replace_loop re repl t (Suc i) (Suc i)"
proof -
  have e: "exec_from re t i = exec_from re t (Suc i)"
    using assms by (simp add: exec_from.simps [of re t i])
  show ?thesis
  proof (cases "exec_from re t (Suc i)")
    case None
    with e assms(2) show ?thesis
      by (simp add: replace_loop.simps [of re repl t i i] replace_loop.simps [of re repl t "Suc i" "Suc i"]
            Cons_nth_drop_Suc)
  next
    case (Some m)
    from exec_from_bound [OF Some] have b: "Suc i \<le> m_index m" "m_index m \<le> length t" by auto
    have "substring t i (m_index m) = t ! i # substring t (Suc i) (m_index m)"
    proof -
      have "take (m_index m - i) (drop i t) = t ! i # take (m_index m - Suc i) (drop (Suc i) t)"
        using b assms(2)
        by (metis Cons_nth_drop_Suc Suc_diff_le diff_Suc_Suc take_Suc_Cons)
      with b assms(2) show ?thesis by (simp add: substring_def min_def max_def)
    qed
    with e Some show ?thesis
      by (simp add: replace_loop.simps [of re repl t i i] replace_loop.simps [of re repl t "Suc i" "Suc i"])
  qed
qed

lemma replace_loop_end:
  assumes "match_at re t (length t) = None"
  shows "replace_loop re repl t (length t) (length t) = []"
proof -
  have "exec_from re t (length t) = None"
    using assms by (simp add: exec_from.simps [of re t "length t"] exec_from.simps [of re t "Suc (length t)"])
  then show ?thesis by (simp add: replace_loop.simps [of re repl t "length t" "length t"])
qed

fun ok3 :: "nat \<Rightarrow> jstring \<Rightarrow> bool" where
  "ok3 n [] = True"
| "ok3 n (x # xs) =
     (if x = 10 then n < 2 \<and> ok3 (Suc n) xs else if is_ws x then ok3 n xs else ok3 0 xs)"

lemma run_nls_drop:
  "i < length t \<Longrightarrow>
     run_nls (drop i t) = (if is_ws (t ! i) then (if t ! i = 10 then 1 else 0) + run_nls (drop (Suc i) t) else 0)"
  using Cons_nth_drop_Suc [of i t, symmetric] by simp

lemma replace_nl3_ok3:
  "i \<le> length t \<Longrightarrow> n = 0 \<or> n + run_nls (drop i t) \<le> 2 \<Longrightarrow>
     ok3 n (replace_loop nl3 [10, 10] t i i)"
proof (induction "length t - i" arbitrary: i n rule: less_induct)
  case less
  show ?case
  proof (cases "i = length t")
    case True
    then show ?thesis using replace_loop_end [OF match_at_nl3_end, of "[10, 10]" t] by simp
  next
    case False
    with less.prems have lt: "i < length t" by simp
    show ?thesis
    proof (cases "match_at nl3 t i")
      case (Some m)
      from match_at_nl3(1) [OF lt] Some have x: "t ! i = 10" "2 \<le> run_nls (drop (Suc i) t)" by auto
      from match_at_nl3(2) [OF lt Some] have e: "m_end m = Suc i + run_end (drop (Suc i) t)" .
      have le: "m_end m \<le> length t" using e run_end_le [of "drop (Suc i) t"] lt by simp
      have n0: "n = 0" using less.prems(2) x run_nls_drop [OF lt] by auto
      have "drop (m_end m) t = drop (run_end (drop (Suc i) t)) (drop (Suc i) t)"
        by (simp add: e add.commute)
      then have "run_nls (drop (m_end m) t) = 0" using run_nls_after [of "drop (Suc i) t"] by simp
      then have "ok3 2 (replace_loop nl3 [10, 10] t (m_end m) (m_end m))"
        using less.hyps [of "m_end m" 2] le e lt by simp
      moreover have "replace_loop nl3 [10, 10] t i i = [10, 10] @ replace_loop nl3 [10, 10] t (m_end m) (m_end m)"
        using replace_loop_match [OF Some] lt e by simp
      ultimately show ?thesis using n0 by (simp add: numeral_2_eq_2)
    next
      case None
      from match_at_nl3(1) [OF lt] None have x: "t ! i = 10 \<Longrightarrow> run_nls (drop (Suc i) t) < 2" by auto
      have r: "replace_loop nl3 [10, 10] t i i = t ! i # replace_loop nl3 [10, 10] t (Suc i) (Suc i)"
        using replace_loop_skip [OF None lt] .
      have IH: "n' = 0 \<or> n' + run_nls (drop (Suc i) t) \<le> 2 \<Longrightarrow>
              ok3 n' (replace_loop nl3 [10, 10] t (Suc i) (Suc i))" for n'
        using less.hyps [of "Suc i" n'] lt by simp
      show ?thesis
      proof (cases "t ! i = 10")
        case True
        with x have r2: "run_nls (drop (Suc i) t) < 2" by simp
        have "n < 2 \<and> Suc n + run_nls (drop (Suc i) t) \<le> 2"
          using less.prems(2) r2 run_nls_drop [OF lt] True by auto
        with IH [of "Suc n"] True show ?thesis by (simp add: r)
      next
        case nn: False
        show ?thesis
        proof (cases "is_ws (t ! i)")
          case True
          with nn less.prems(2) run_nls_drop [OF lt] have "n = 0 \<or> n + run_nls (drop (Suc i) t) \<le> 2"
            by auto
          with IH [of n] True nn show ?thesis by (simp add: r)
        next
          case False
          with IH [of 0] nn show ?thesis by (simp add: r)
        qed
      qed
    qed
  qed
qed

lemma replace_all_nl3_ok3: "ok3 0 (replace_all nl3 [10, 10] t)"
  unfolding replace_all_def using replace_nl3_ok3 [of 0 t 0] by simp

subsection \<open>Trimming the lines\<close>

text \<open>
  \<open>squeeze\<close> removes the white space other than newlines. Trimming the lines removes
  only such characters, so the text keeps its \<open>squeeze\<close>, and \<open>ok3\<close> depends only on it.
\<close>

definition squeeze :: "jstring \<Rightarrow> jstring" where
  "squeeze u = filter (\<lambda>x. x = 10 \<or> \<not> is_ws x) u"

lemma ok3_squeeze: "ok3 n (squeeze u) = ok3 n u"
  by (induction u arbitrary: n) (auto simp: squeeze_def)

lemma filter_dropWhile_disjoint:
  "(\<And>x. x \<in> set l \<Longrightarrow> Q x \<Longrightarrow> \<not> P x) \<Longrightarrow> filter P (dropWhile Q l) = filter P l"
  by (induction l) auto

lemma squeeze_trim: "10 \<notin> set l \<Longrightarrow> squeeze (trim l) = squeeze l"
proof -
  assume l: "10 \<notin> set l"
  have "filter (\<lambda>x. x = 10 \<or> \<not> is_ws x) (dropWhile is_ws (rev (dropWhile is_ws l)))
        = filter (\<lambda>x. x = 10 \<or> \<not> is_ws x) (rev (dropWhile is_ws l))"
    using l by (intro filter_dropWhile_disjoint) (auto dest: set_dropWhileD)
  moreover have "filter (\<lambda>x. x = 10 \<or> \<not> is_ws x) (dropWhile is_ws l)
        = filter (\<lambda>x. x = 10 \<or> \<not> is_ws x) l"
    using l by (intro filter_dropWhile_disjoint) auto
  ultimately show ?thesis by (simp add: squeeze_def trim_def rev_filter [symmetric])
qed

lemma split_nonempty: "split c xs \<noteq> []"
  by (induction xs) (auto split: list.splits)

lemma split_free: "l \<in> set (split c xs) \<Longrightarrow> c \<notin> set l"
  by (induction xs arbitrary: l) (auto split: list.splits if_splits)

lemma join_Cons: "ls \<noteq> [] \<Longrightarrow> join sep (l # ls) = l @ sep @ join sep ls"
  by (cases ls) auto

lemma join_split: "join [c] (split c xs) = xs"
proof (induction xs)
  case Nil
  then show ?case by simp
next
  case (Cons x xs)
  show ?case
  proof (cases "x = c")
    case True
    with Cons show ?thesis by (simp add: join_Cons split_nonempty)
  next
    case False
    obtain l ls where s: "split c xs = l # ls" using split_nonempty [of c xs] by (cases "split c xs") auto
    with Cons False show ?thesis by (cases ls) auto
  qed
qed

lemma squeeze_join:
  "(\<And>l. l \<in> set ls \<Longrightarrow> 10 \<notin> set l) \<Longrightarrow> squeeze (join [10] (map trim ls)) = squeeze (join [10] ls)"
proof (induction ls)
  case Nil
  then show ?case by simp
next
  case (Cons l ls)
  have app: "squeeze (a @ b) = squeeze a @ squeeze b" for a b by (simp add: squeeze_def)
  have l: "squeeze (trim l) = squeeze l" using Cons.prems by (simp add: squeeze_trim)
  have c: "squeeze (10 # a) = 10 # squeeze a" for a by (simp add: squeeze_def)
  show ?case
  proof (cases "ls = []")
    case True
    with l show ?thesis by simp
  next
    case False
    with Cons l show ?thesis by (simp add: join_Cons app c)
  qed
qed

lemma squeeze_lines: "squeeze (join [10] (map trim (split 10 t))) = squeeze t"
  using squeeze_join [of "split 10 t"] split_free [of _ 10 t] by (simp add: join_split)

lemma ok3_triple: "\<not> ok3 n (xs @ [10, 10, 10] @ ys)"
  by (induction xs arbitrary: n) auto

lemma trim_infix: "\<exists>a b. u = a @ trim u @ b"
proof -
  have "u = takeWhile is_ws u @ dropWhile is_ws u" by simp
  moreover have "dropWhile is_ws u = trim u @ rev (takeWhile is_ws (rev (dropWhile is_ws u)))"
    unfolding trim_def
    by (metis rev_append rev_rev_ident takeWhile_dropWhile_id)
  ultimately show ?thesis by metis
qed

lemma ok3_trim_no_triple:
  assumes "ok3 0 u"
  shows "\<nexists>xs ys. trim u = xs @ [10, 10, 10] @ ys"
proof
  assume "\<exists>xs ys. trim u = xs @ [10, 10, 10] @ ys"
  then obtain xs ys where t: "trim u = xs @ [10, 10, 10] @ ys" by auto
  obtain a b where "u = a @ trim u @ b" using trim_infix by blast
  with t have "u = (a @ xs) @ [10, 10, 10] @ (ys @ b)" by simp
  with ok3_triple [of 0 "a @ xs" "ys @ b"] assms show False by simp
qed

lemma clean_whitespace_no_triple: "\<nexists>xs ys. clean_whitespace t = xs @ [10, 10, 10] @ ys"
proof -
  define text2 where "text2 = replace_all nl3 [10, 10] (replace_all blanks [32] t)"
  have "ok3 0 (squeeze text2)" unfolding text2_def ok3_squeeze by (rule replace_all_nl3_ok3)
  then have "ok3 0 (join [10] (map trim (split 10 text2)))"
    using ok3_squeeze [of 0 "join [10] (map trim (split 10 text2))"] by (simp add: squeeze_lines)
  from ok3_trim_no_triple [OF this] show ?thesis
    by (simp add: clean_whitespace_def text2_def)
qed

subsection \<open>The two replacements as functions on lists\<close>

text \<open>
  \<open>collapse\<close> is what the replacement of \<^verbatim>\<open>/\n\s*\n\s*\n/g\<close> computes, read from left to
  right, and \<open>one_space\<close> what the replacement of \<^verbatim>\<open>/[ \t]+/g\<close> computes. Both are proved
  equal to the replacement loop run on the patterns; a character that is not white space
  separates what happens before it from what happens after it.
\<close>

fun collapse :: "jstring \<Rightarrow> jstring" where
  "collapse [] = []"
| "collapse (x # xs) =
     (if x = 10 \<and> 2 \<le> run_nls xs then 10 # 10 # collapse (drop (run_end xs) xs)
      else x # collapse xs)"

lemma collapse_keep: "\<not> (x = 10 \<and> 2 \<le> run_nls xs) \<Longrightarrow> collapse (x # xs) = x # collapse xs"
  by auto

lemma collapse_hit:
  "x = 10 \<Longrightarrow> 2 \<le> run_nls xs \<Longrightarrow> collapse (x # xs) = 10 # 10 # collapse (drop (run_end xs) xs)"
  by simp

declare collapse.simps(2) [simp del]

lemma replace_loop_collapse:
  "i \<le> length t \<Longrightarrow> replace_loop nl3 [10, 10] t i i = collapse (drop i t)"
proof (induction "length t - i" arbitrary: i rule: less_induct)
  case less
  show ?case
  proof (cases "i = length t")
    case True
    then show ?thesis using replace_loop_end [OF match_at_nl3_end, of "[10, 10]" t] by simp
  next
    case False
    with less.prems have lt: "i < length t" by simp
    have d: "drop i t = t ! i # drop (Suc i) t" using lt by (simp add: Cons_nth_drop_Suc)
    show ?thesis
    proof (cases "match_at nl3 t i")
      case (Some m)
      from match_at_nl3(1) [OF lt] Some have x: "t ! i = 10" "2 \<le> run_nls (drop (Suc i) t)" by auto
      from match_at_nl3(2) [OF lt Some] have e: "m_end m = Suc i + run_end (drop (Suc i) t)" .
      have le: "m_end m \<le> length t" using e run_end_le [of "drop (Suc i) t"] lt by simp
      have dd: "drop (m_end m) t = drop (run_end (drop (Suc i) t)) (drop (Suc i) t)"
        by (simp add: e add.commute)
      have "replace_loop nl3 [10, 10] t (m_end m) (m_end m) = collapse (drop (m_end m) t)"
        using less.hyps [of "m_end m"] le e lt by simp
      moreover have "replace_loop nl3 [10, 10] t i i = [10, 10] @ replace_loop nl3 [10, 10] t (m_end m) (m_end m)"
        using replace_loop_match [OF Some] lt e by simp
      ultimately show ?thesis using x by (simp add: d dd collapse_hit)
    next
      case None
      from match_at_nl3(1) [OF lt] None have x: "\<not> (t ! i = 10 \<and> 2 \<le> run_nls (drop (Suc i) t))" by auto
      have "replace_loop nl3 [10, 10] t (Suc i) (Suc i) = collapse (drop (Suc i) t)"
        using less.hyps [of "Suc i"] lt by simp
      with replace_loop_skip [OF None lt, of "[10, 10]"] collapse_keep [OF x] show ?thesis by (simp add: d)
    qed
  qed
qed

lemma replace_all_nl3_collapse: "replace_all nl3 [10, 10] t = collapse t"
  unfolding replace_all_def using replace_loop_collapse [of 0 t] by simp

lemma run_nls_solid: "\<not> is_ws a \<Longrightarrow> run_nls (xs @ a # r) = run_nls (xs @ [a])"
  by (induction xs) auto

lemma run_end_solid: "\<not> is_ws a \<Longrightarrow> run_end (xs @ a # r) = run_end (xs @ [a])"
  by (induction xs) auto

lemma run_end_solid_le: "\<not> is_ws a \<Longrightarrow> run_end (xs @ [a]) \<le> length xs"
  by (induction xs) auto

lemma collapse_solid:
  "\<not> is_ws a \<Longrightarrow> collapse (p @ a # r) = collapse (p @ [a]) @ collapse r"
proof (induction "length p" arbitrary: p rule: less_induct)
  case less
  have a: "a \<noteq> 10" using less.prems by auto
  show ?case
  proof (cases p)
    case Nil
    with a show ?thesis by (simp add: collapse_keep)
  next
    case (Cons x xs)
    show ?thesis
    proof (cases "x = 10 \<and> 2 \<le> run_nls (xs @ [a])")
      case True
      define n where "n = run_end (xs @ [a])"
      have n: "n \<le> length xs" unfolding n_def by (rule run_end_solid_le [OF less.prems])
      have "collapse (drop n xs @ a # r) = collapse (drop n xs @ [a]) @ collapse r"
        using less.hyps [of "drop n xs"] less.prems Cons by simp
      moreover have "collapse (x # xs @ a # r) = 10 # 10 # collapse (drop n (xs @ a # r))"
        using True collapse_hit [of x "xs @ a # r"]
        by (simp add: run_nls_solid [OF less.prems, of xs r] run_end_solid [OF less.prems, of xs r] n_def)
      moreover have "collapse (x # xs @ [a]) = 10 # 10 # collapse (drop n (xs @ [a]))"
        using True collapse_hit [of x "xs @ [a]"] by (simp add: n_def)
      ultimately show ?thesis using n by (simp add: Cons)
    next
      case False
      then have "collapse (x # xs @ a # r) = x # collapse (xs @ a # r)"
        by (intro collapse_keep) (simp add: run_nls_solid [OF less.prems, of xs r])
      moreover have "collapse (x # xs @ [a]) = x # collapse (xs @ [a])"
        using False by (intro collapse_keep) simp
      ultimately show ?thesis using less.hyps [of xs] less.prems by (simp add: Cons)
    qed
  qed
qed

lemma ms_Star_Atom_hd:
  "ms (Star (Atom p)) xs (0, c) \<noteq> [] \<and> fst (hd (ms (Star (Atom p)) xs (0, c))) = length (takeWhile p xs)"
proof (induction xs)
  case Nil
  then show ?case by (simp add: ms_Star_Atom_Nil)
next
  case (Cons x xs)
  then show ?case by (cases "p x") (simp_all add: ms_Star_Atom_Cons hd_append hd_map)
qed

lemma blanks_Cons:
  "ms blanks (x # xs) (0, c) = (if is_blank x then map (apfst Suc) (ms (Star (Atom is_blank)) xs (0, c)) else [])"
  unfolding blanks_def Plus_def using ms_Atom_Seq_Cons [of "Star (Atom is_blank)" is_blank x xs c] by simp

lemma blanks_Nil: "ms blanks [] (0, c) = []"
  unfolding blanks_def Plus_def by simp

lemma simple_blanks: "simple blanks"
  by (simp add: blanks_def Plus_def)

lemma match_at_blanks:
  assumes "i < length t"
  shows "match_at blanks t i = None \<longleftrightarrow> \<not> is_blank (t ! i)"
    and "match_at blanks t i = Some m \<Longrightarrow> m_end m = Suc i + length (takeWhile is_blank (drop (Suc i) t))"
proof -
  let ?S = "ms (Star (Atom is_blank)) (drop (Suc i) t) (0, \<lambda>k. None)"
  have d: "drop i t = t ! i # drop (Suc i) t" using assms by (simp add: Cons_nth_drop_Suc)
  have ms: "ms blanks t (i, \<lambda>k. None) = map (apfst ((+) i)) (if is_blank (t ! i) then map (apfst Suc) ?S else [])"
    using ms_drop [OF simple_blanks, of i t "\<lambda>k. None"] assms by (simp add: d blanks_Cons)
  have S: "?S \<noteq> []" "fst (hd ?S) = length (takeWhile is_blank (drop (Suc i) t))"
    using ms_Star_Atom_hd [of is_blank "drop (Suc i) t" "\<lambda>k. None"] by auto
  show "match_at blanks t i = None \<longleftrightarrow> \<not> is_blank (t ! i)"
    using S(1) by (auto simp: match_at_def ms split: list.splits)
  assume "match_at blanks t i = Some m"
  then obtain s rest where s: "ms blanks t (i, \<lambda>k. None) = s # rest" and e: "m_end m = fst s"
    by (auto simp: match_at_def split: list.splits)
  from s ms have b: "is_blank (t ! i)" by (auto split: if_splits)
  with s ms S(1) have "s = apfst ((+) i) (apfst Suc (hd ?S))" by (cases ?S) auto
  with S(2) e show "m_end m = Suc i + length (takeWhile is_blank (drop (Suc i) t))"
    by (cases "hd ?S") auto
qed

lemma match_at_blanks_end: "match_at blanks t (length t) = None"
  using ms_drop [OF simple_blanks, of "length t" t "\<lambda>k. None"]
  by (simp add: match_at_def blanks_Nil)

function one_space :: "jstring \<Rightarrow> jstring" where
  "one_space [] = []"
| "one_space (x # xs) = (if is_blank x then 32 # one_space (dropWhile is_blank xs) else x # one_space xs)"
  by pat_completeness auto
termination
  by (relation "measure length") (auto simp: length_dropWhile_le less_Suc_eq_le)

lemma one_space_hit: "is_blank x \<Longrightarrow> one_space (x # xs) = 32 # one_space (dropWhile is_blank xs)"
  by simp

lemma one_space_keep: "\<not> is_blank x \<Longrightarrow> one_space (x # xs) = x # one_space xs"
  by simp

declare one_space.simps(2) [simp del]

lemma replace_loop_one_space:
  "i \<le> length t \<Longrightarrow> replace_loop blanks [32] t i i = one_space (drop i t)"
proof (induction "length t - i" arbitrary: i rule: less_induct)
  case less
  show ?case
  proof (cases "i = length t")
    case True
    then show ?thesis using replace_loop_end [OF match_at_blanks_end, of "[32]" t] by simp
  next
    case False
    with less.prems have lt: "i < length t" by simp
    have d: "drop i t = t ! i # drop (Suc i) t" using lt by (simp add: Cons_nth_drop_Suc)
    show ?thesis
    proof (cases "match_at blanks t i")
      case (Some m)
      from match_at_blanks(1) [OF lt] Some have x: "is_blank (t ! i)" by auto
      from match_at_blanks(2) [OF lt Some]
      have e: "m_end m = Suc i + length (takeWhile is_blank (drop (Suc i) t))" .
      have "length (takeWhile is_blank (drop (Suc i) t)) \<le> length (drop (Suc i) t)"
        by (rule length_takeWhile_le)
      then have le: "m_end m \<le> length t" using e lt by simp
      have dd: "drop (m_end m) t = dropWhile is_blank (drop (Suc i) t)"
        by (simp add: e add.commute dropWhile_eq_drop)
      have "replace_loop blanks [32] t (m_end m) (m_end m) = one_space (drop (m_end m) t)"
        using less.hyps [of "m_end m"] le e lt by simp
      moreover have "replace_loop blanks [32] t i i = [32] @ replace_loop blanks [32] t (m_end m) (m_end m)"
        using replace_loop_match [OF Some] lt e by simp
      ultimately show ?thesis using x by (simp add: d dd one_space_hit)
    next
      case None
      from match_at_blanks(1) [OF lt] None have x: "\<not> is_blank (t ! i)" by auto
      have "replace_loop blanks [32] t (Suc i) (Suc i) = one_space (drop (Suc i) t)"
        using less.hyps [of "Suc i"] lt by simp
      with replace_loop_skip [OF None lt, of "[32]"] one_space_keep [OF x] show ?thesis by (simp add: d)
    qed
  qed
qed

lemma replace_all_blanks: "replace_all blanks [32] t = one_space t"
  unfolding replace_all_def using replace_loop_one_space [of 0 t] by simp

subsection \<open>Text that ends or starts with a character that is not white space\<close>

lemma dropWhile_solid: "\<not> P a \<Longrightarrow> dropWhile P (xs @ a # r) = dropWhile P xs @ a # r"
  by (induction xs) auto

lemma blank_ws: "is_blank x \<Longrightarrow> is_ws x"
  by (auto simp: is_blank_def is_ws_def)

lemma one_space_solid:
  "\<not> is_blank a \<Longrightarrow> one_space (p @ a # r) = one_space (p @ [a]) @ one_space r"
proof (induction "length p" arbitrary: p rule: less_induct)
  case less
  show ?case
  proof (cases p)
    case Nil
    with less.prems show ?thesis by (simp add: one_space_keep)
  next
    case (Cons x xs)
    show ?thesis
    proof (cases "is_blank x")
      case True
      have "length (dropWhile is_blank xs) < length p"
        using Cons length_dropWhile_le [of is_blank xs] by simp
      from less.hyps [OF this less.prems] True show ?thesis
        using dropWhile_solid [of is_blank a xs r, OF less.prems] dropWhile_solid [of is_blank a xs "[]", OF less.prems]
        by (simp add: Cons one_space_hit)
    next
      case False
      with less.hyps [of xs] less.prems show ?thesis by (simp add: Cons one_space_keep)
    qed
  qed
qed

lemma one_space_last: "\<not> is_blank a \<Longrightarrow> \<exists>z. one_space (p @ [a]) = z @ [a]"
proof (induction "length p" arbitrary: p rule: less_induct)
  case less
  show ?case
  proof (cases p)
    case Nil
    with less.prems show ?thesis by (simp add: one_space_keep)
  next
    case (Cons x xs)
    show ?thesis
    proof (cases "is_blank x")
      case True
      have "length (dropWhile is_blank xs) < length p"
        using Cons length_dropWhile_le [of is_blank xs] by simp
      from less.hyps [OF this less.prems] obtain z where "one_space (dropWhile is_blank xs @ [a]) = z @ [a]"
        by auto
      with True dropWhile_solid [of is_blank a xs "[]", OF less.prems] have "one_space (p @ [a]) = (32 # z) @ [a]"
        by (simp add: Cons one_space_hit)
      then show ?thesis by blast
    next
      case False
      from less.hyps [of xs] less.prems Cons obtain z where "one_space (xs @ [a]) = z @ [a]" by auto
      with False have "one_space (p @ [a]) = (x # z) @ [a]" by (simp add: Cons one_space_keep)
      then show ?thesis by blast
    qed
  qed
qed

lemma collapse_last: "\<not> is_ws a \<Longrightarrow> \<exists>z. collapse (p @ [a]) = z @ [a]"
proof (induction "length p" arbitrary: p rule: less_induct)
  case less
  have a: "a \<noteq> 10" using less.prems by auto
  show ?case
  proof (cases p)
    case Nil
    with a show ?thesis by (simp add: collapse_keep)
  next
    case (Cons x xs)
    show ?thesis
    proof (cases "x = 10 \<and> 2 \<le> run_nls (xs @ [a])")
      case True
      define n where "n = run_end (xs @ [a])"
      have n: "n \<le> length xs" unfolding n_def by (rule run_end_solid_le [OF less.prems])
      have "length (drop n xs) < length p" using Cons by simp
      from less.hyps [OF this less.prems] obtain z where "collapse (drop n xs @ [a]) = z @ [a]"
        by auto
      moreover have "collapse (x # xs @ [a]) = 10 # 10 # collapse (drop n (xs @ [a]))"
        using True collapse_hit [of x "xs @ [a]"] by (simp add: n_def)
      ultimately have "collapse (p @ [a]) = (10 # 10 # z) @ [a]" using n by (simp add: Cons)
      then show ?thesis by blast
    next
      case False
      from less.hyps [of xs] less.prems Cons obtain z where "collapse (xs @ [a]) = z @ [a]" by auto
      moreover have "collapse (x # xs @ [a]) = x # collapse (xs @ [a])"
        using False by (intro collapse_keep) simp
      ultimately have "collapse (p @ [a]) = (x # z) @ [a]" by (simp add: Cons)
      then show ?thesis by blast
    qed
  qed
qed

lemma collapse_hd: "\<not> is_ws b \<Longrightarrow> collapse (b # q) = b # collapse q"
  by (intro collapse_keep) auto

definition trim_lines :: "jstring \<Rightarrow> jstring" where
  "trim_lines u = join [10] (map trim (split 10 u))"

lemma split_append: "split c (X @ c # Y) = split c X @ split c Y"
proof (induction X)
  case Nil
  then show ?case by simp
next
  case (Cons x X)
  obtain l ls where s: "split c X = l # ls" using split_nonempty [of c X] by (cases "split c X") auto
  with Cons show ?case by simp
qed

lemma join_append:
  "as \<noteq> [] \<Longrightarrow> bs \<noteq> [] \<Longrightarrow> join sep (as @ bs) = join sep as @ sep @ join sep bs"
proof (induction as)
  case Nil
  then show ?case by simp
next
  case (Cons a as)
  then show ?case by (cases "as = []") (simp_all add: join_Cons)
qed

lemma trim_Nil: "trim [] = []"
  by (simp add: trim_def)

lemma trim_lines_nl: "trim_lines (X @ 10 # Y) = trim_lines X @ 10 # trim_lines Y"
  by (simp add: trim_lines_def split_append join_append split_nonempty)

lemma trim_lines_Nil: "trim_lines [] = []"
  by (simp add: trim_lines_def trim_Nil)

lemma trim_last: "\<not> is_ws a \<Longrightarrow> \<exists>z. trim (l @ [a]) = z @ [a]"
proof -
  assume a: "\<not> is_ws a"
  obtain d where d: "dropWhile is_ws (l @ [a]) = d @ [a]"
    using dropWhile_solid [of is_ws a l "[]", OF a] by auto
  with a show ?thesis by (simp add: trim_def)
qed

lemma trim_hd: "\<not> is_ws b \<Longrightarrow> \<exists>z. trim (b # l) = b # z"
proof -
  assume b: "\<not> is_ws b"
  have "dropWhile is_ws (rev l @ [b]) = dropWhile is_ws (rev l) @ [b]"
    using dropWhile_solid [of is_ws b "rev l" "[]", OF b] by simp
  with b show ?thesis by (simp add: trim_def)
qed

lemma split_last: "a \<noteq> c \<Longrightarrow> \<exists>ls l. split c (p @ [a]) = ls @ [l @ [a]]"
proof (induction p)
  case Nil
  then have "split c ([] @ [a]) = [] @ [[] @ [a]]" by simp
  then show ?case by blast
next
  case (Cons x p)
  then obtain ls l where s: "split c (p @ [a]) = ls @ [l @ [a]]" by auto
  show ?case
  proof (cases "x = c")
    case True
    with s have "split c ((x # p) @ [a]) = ([] # ls) @ [l @ [a]]" by simp
    then show ?thesis by blast
  next
    case False
    show ?thesis
    proof (cases ls)
      case Nil
      with s False have "split c ((x # p) @ [a]) = [] @ [(x # l) @ [a]]" by simp
      then show ?thesis by blast
    next
      case (Cons m ms')
      with s False have "split c ((x # p) @ [a]) = ((x # m) # ms') @ [l @ [a]]" by simp
      then show ?thesis by blast
    qed
  qed
qed

lemma join_snoc: "\<exists>z. join sep (ls @ [l @ [a]]) = z @ [a]"
proof (induction ls)
  case Nil
  then show ?case by simp
next
  case (Cons m ls)
  then obtain z where "join sep (ls @ [l @ [a]]) = z @ [a]" by auto
  then have "join sep ((m # ls) @ [l @ [a]]) = (m @ sep @ z) @ [a]" by (simp add: join_Cons)
  then show ?case by blast
qed

lemma trim_lines_last: "\<not> is_ws a \<Longrightarrow> \<exists>z. trim_lines (p @ [a]) = z @ [a]"
proof -
  assume a: "\<not> is_ws a"
  then have "a \<noteq> 10" by auto
  from split_last [OF this] obtain ls l where s: "split 10 (p @ [a]) = ls @ [l @ [a]]" by blast
  from trim_last [OF a] obtain z where "trim (l @ [a]) = z @ [a]" by blast
  with s show ?thesis using join_snoc [of "[10]" "map trim ls" z a] by (simp add: trim_lines_def)
qed

lemma trim_lines_hd: "\<not> is_ws b \<Longrightarrow> \<exists>z. trim_lines (b # q) = b # z"
proof -
  assume b: "\<not> is_ws b"
  then have n: "b \<noteq> 10" by auto
  obtain l ls where s: "split 10 q = l # ls" using split_nonempty [of 10 q] by (cases "split 10 q") auto
  from trim_hd [OF b] obtain z where z: "trim (b # l) = b # z" by blast
  show ?thesis
  proof (cases "ls = []")
    case True
    with s n z show ?thesis by (simp add: trim_lines_def)
  next
    case False
    with s n z show ?thesis by (simp add: trim_lines_def join_Cons)
  qed
qed

lemma trim_solid:
  assumes "\<not> is_ws a" "\<not> is_ws b"
  shows "trim (u @ [a] @ M @ b # v) = trim (u @ [a]) @ M @ trim (b # v)"
proof -
  obtain d where d: "dropWhile is_ws (u @ [a]) = d @ [a]"
    using dropWhile_solid [of is_ws a u "[]", OF assms(1)] by auto
  have 1: "dropWhile is_ws (u @ a # M @ b # v) = d @ a # M @ b # v"
    using dropWhile_solid [of is_ws a u "M @ b # v", OF assms(1)]
      dropWhile_solid [of is_ws a u "[]", OF assms(1)] d
    by simp
  have 2: "dropWhile is_ws (rev v @ b # rev M @ a # rev d)
          = dropWhile is_ws (rev v) @ b # rev M @ a # rev d"
    by (rule dropWhile_solid [of is_ws b, OF assms(2)])
  have 3: "dropWhile is_ws (rev v @ [b]) = dropWhile is_ws (rev v) @ [b]"
    using dropWhile_solid [of is_ws b "rev v" "[]", OF assms(2)] by simp
  have "trim (u @ [a] @ M @ b # v) = rev (dropWhile is_ws (rev (d @ a # M @ b # v)))"
    using 1 by (simp add: trim_def)
  also have "rev (d @ a # M @ b # v) = rev v @ b # rev M @ a # rev d" by simp
  also have "rev (dropWhile is_ws (rev v @ b # rev M @ a # rev d))
             = d @ a # M @ b # rev (dropWhile is_ws (rev v))"
    unfolding 2 by simp
  finally have l: "trim (u @ [a] @ M @ b # v) = d @ a # M @ b # rev (dropWhile is_ws (rev v))" .
  have "trim (u @ [a]) = d @ [a]" using d assms(1) by (simp add: trim_def)
  moreover have "trim (b # v) = b # rev (dropWhile is_ws (rev v))"
    using 3 assms(2) by (simp add: trim_def)
  ultimately show ?thesis using l by simp
qed

lemma clean_whitespace_eq: "clean_whitespace t = trim (trim_lines (collapse (one_space t)))"
  by (simp add: clean_whitespace_def replace_all_blanks replace_all_nl3_collapse trim_lines_def)

subsection \<open>A block of white space between two words\<close>

text \<open>
  A block of white space that stands between two characters that are not white space keeps
  its newlines through the replacement of the blanks, has \<open>min k 2\<close> of its \<open>k\<close> newlines
  left after the replacement of the newline pattern, and is reduced to these newlines by
  the trimming of the lines.
\<close>

lemma count_dropWhile_blank: "count_list (dropWhile is_blank g) 10 = count_list g 10"
  by (induction g) (auto simp: is_blank_def)

lemma one_space_group:
  "list_all is_ws g \<Longrightarrow> \<not> is_blank b \<Longrightarrow>
     \<exists>G. one_space (g @ b # q) = G @ b # one_space q \<and> list_all is_ws G
          \<and> count_list G 10 = count_list g 10"
proof (induction "length g" arbitrary: g rule: less_induct)
  case less
  show ?case
  proof (cases g)
    case Nil
    with less.prems have "one_space (g @ b # q) = [] @ b # one_space q" by (simp add: one_space_keep)
    then show ?thesis using Nil by (intro exI [of _ "[]"]) simp
  next
    case (Cons x g')
    show ?thesis
    proof (cases "is_blank x")
      case True
      let ?d = "dropWhile is_blank g'"
      have len: "length ?d < length g" using Cons length_dropWhile_le [of is_blank g'] by simp
      have ws: "list_all is_ws ?d" using less.prems(1) Cons by (auto simp: list_all_iff dest: set_dropWhileD)
      from less.hyps [OF len ws less.prems(2)] obtain G where
        G: "one_space (?d @ b # q) = G @ b # one_space q" "list_all is_ws G"
           "count_list G 10 = count_list ?d 10" by blast
      have "one_space (g @ b # q) = (32 # G) @ b # one_space q"
        using True G(1) dropWhile_solid [of is_blank b g' q, OF less.prems(2)]
        by (simp add: Cons one_space_hit)
      moreover have "x \<noteq> 10" using True by (auto simp: is_blank_def)
      ultimately show ?thesis using G(2,3) Cons
        by (intro exI [of _ "32 # G"]) (simp add: count_dropWhile_blank is_ws_def)
    next
      case False
      from less.hyps [of g'] less.prems Cons obtain G where
        G: "one_space (g' @ b # q) = G @ b # one_space q" "list_all is_ws G"
           "count_list G 10 = count_list g' 10" by auto
      have "one_space (g @ b # q) = (x # G) @ b # one_space q"
        using False G(1) by (simp add: Cons one_space_keep)
      then show ?thesis using G(2,3) Cons less.prems(1)
        by (intro exI [of _ "x # G"]) simp
    qed
  qed
qed

lemma run_nls_ws: "list_all is_ws g \<Longrightarrow> \<not> is_ws b \<Longrightarrow> run_nls (g @ b # q) = count_list g 10"
  by (induction g) auto

lemma run_end_ws:
  "list_all is_ws g \<Longrightarrow> \<not> is_ws b \<Longrightarrow>
     \<exists>w. drop (run_end (g @ b # q)) (g @ b # q) = w @ b # q \<and> list_all is_ws w \<and> 10 \<notin> set w"
proof (induction g)
  case Nil
  then have "drop (run_end ([] @ b # q)) ([] @ b # q) = [] @ b # q" by simp
  then show ?case by (intro exI [of _ "[]"]) simp
next
  case (Cons x g)
  then obtain w where w: "drop (run_end (g @ b # q)) (g @ b # q) = w @ b # q"
    "list_all is_ws w" "10 \<notin> set w" by auto
  from Cons.prems have x: "is_ws x" by simp
  show ?case
  proof (cases "0 < run_end (g @ b # q)")
    case True
    with w x show ?thesis by (intro exI [of _ w]) simp
  next
    case False
    with w(1) have "g @ b # q = w @ b # q" by simp
    then have gw: "g = w" by simp
    show ?thesis
    proof (cases "x = 10")
      case True
      with False x gw w show ?thesis by (intro exI [of _ w]) simp
    next
      case F: False
      with False x gw w show ?thesis by (intro exI [of _ "x # w"]) simp
    qed
  qed
qed

lemma collapse_nonl: "10 \<notin> set w \<Longrightarrow> collapse (w @ r) = w @ collapse r"
  by (induction w) (simp_all add: collapse_keep)

lemma collapse_group:
  "list_all is_ws g \<Longrightarrow> \<not> is_ws b \<Longrightarrow>
     \<exists>G. collapse (g @ b # q) = G @ b # collapse q \<and> list_all is_ws G
          \<and> count_list G 10 = min (count_list g 10) 2"
proof (induction g)
  case Nil
  then have "collapse ([] @ b # q) = [] @ b # collapse q" by (simp add: collapse_hd)
  then show ?case by (intro exI [of _ "[]"]) simp
next
  case (Cons x g)
  then obtain G where G: "collapse (g @ b # q) = G @ b # collapse q" "list_all is_ws G"
    "count_list G 10 = min (count_list g 10) 2" by auto
  from Cons.prems have x: "is_ws x" and g: "list_all is_ws g" by simp_all
  note rn = run_nls_ws [OF g Cons.prems(2), of q]
  show ?case
  proof (cases "x = 10 \<and> 2 \<le> count_list g 10")
    case True
    from run_end_ws [OF g Cons.prems(2), of q] obtain w where
      w: "drop (run_end (g @ b # q)) (g @ b # q) = w @ b # q" "list_all is_ws w" "10 \<notin> set w" by blast
    have "collapse ((x # g) @ b # q) = 10 # 10 # collapse (w @ b # q)"
      using True rn w(1) collapse_hit [of x "g @ b # q"] by simp
    also have "collapse (w @ b # q) = w @ b # collapse q"
      using collapse_nonl [OF w(3)] collapse_hd [OF Cons.prems(2)] by simp
    finally have "collapse ((x # g) @ b # q) = (10 # 10 # w) @ b # collapse q" by simp
    moreover have "count_list w 10 = 0" using w(3) by (simp add: count_list_0_iff)
    ultimately show ?thesis using w(2) True
      by (intro exI [of _ "10 # 10 # w"]) simp
  next
    case False
    then have "collapse ((x # g) @ b # q) = x # collapse (g @ b # q)"
      using rn collapse_keep [of x "g @ b # q"] by simp
    with G(1) have "collapse ((x # g) @ b # q) = (x # G) @ b # collapse q" by simp
    then show ?thesis using G(2,3) x False
      by (intro exI [of _ "x # G"]) auto
  qed
qed

lemma trim_ws_Cons: "is_ws x \<Longrightarrow> trim (x # l) = trim l"
  by (simp add: trim_def)

lemma trim_ws_snoc: "is_ws x \<Longrightarrow> trim (l @ [x]) = trim l"
proof (cases "\<forall>y\<in>set l. is_ws y")
  case True
  assume "is_ws x"
  with True have "dropWhile is_ws (l @ [x]) = []" "dropWhile is_ws l = []"
    by (auto dest: set_dropWhileD)
  then show ?thesis by (simp only: trim_def)
next
  case False
  assume "is_ws x"
  from False have "dropWhile is_ws (l @ [x]) = dropWhile is_ws l @ [x]"
    by (simp add: dropWhile_append)
  with \<open>is_ws x\<close> show ?thesis by (simp add: trim_def)
qed

lemma trim_lines_ws_Cons: "is_ws x \<Longrightarrow> x \<noteq> 10 \<Longrightarrow> trim_lines (x # Z) = trim_lines Z"
proof -
  assume x: "is_ws x" "x \<noteq> 10"
  obtain l ls where s: "split 10 Z = l # ls" using split_nonempty [of 10 Z] by (cases "split 10 Z") auto
  with x show ?thesis by (cases ls) (simp_all add: trim_lines_def trim_ws_Cons)
qed

lemma trim_lines_group_left:
  "list_all is_ws g \<Longrightarrow> trim_lines (g @ Y) = replicate (count_list g 10) 10 @ trim_lines Y"
proof (induction g)
  case Nil
  then show ?case by simp
next
  case (Cons x g)
  show ?case
  proof (cases "x = 10")
    case True
    with Cons trim_lines_nl [of "[]" "g @ Y"] show ?thesis by (simp add: trim_lines_Nil)
  next
    case False
    with Cons show ?thesis by (simp add: trim_lines_ws_Cons)
  qed
qed

lemma split_snoc:
  "x \<noteq> c \<Longrightarrow> split c (X @ [x]) = butlast (split c X) @ [last (split c X) @ [x]]"
proof (induction X)
  case Nil
  then show ?case by simp
next
  case (Cons y X)
  obtain l ls where s: "split c X = l # ls" using split_nonempty [of c X] by (cases "split c X") auto
  show ?case
  proof (cases "y = c")
    case True
    with Cons s show ?thesis by simp
  next
    case False
    with Cons s show ?thesis by (cases "ls = []") auto
  qed
qed

lemma trim_lines_ws_snoc: "is_ws x \<Longrightarrow> x \<noteq> 10 \<Longrightarrow> trim_lines (X @ [x]) = trim_lines X"
proof -
  assume x: "is_ws x" "x \<noteq> 10"
  let ?S = "split 10 X"
  have ne: "?S \<noteq> []" by (rule split_nonempty)
  have "map trim (split 10 (X @ [x])) = map trim (butlast ?S) @ [trim (last ?S)]"
    using x by (simp add: split_snoc trim_ws_snoc)
  also have "\<dots> = map trim (butlast ?S @ [last ?S])" by simp
  also have "\<dots> = map trim ?S" using ne by simp
  finally show ?thesis by (simp add: trim_lines_def)
qed

lemma trim_lines_ws_right: "list_all is_ws w \<Longrightarrow> 10 \<notin> set w \<Longrightarrow> trim_lines (X @ w) = trim_lines X"
proof (induction w rule: rev_induct)
  case Nil
  then show ?case by simp
next
  case (snoc x w)
  then have "trim_lines ((X @ w) @ [x]) = trim_lines (X @ w)"
    by (intro trim_lines_ws_snoc) auto
  with snoc show ?case by simp
qed

lemma trim_lines_group:
  assumes "list_all is_ws G" "1 \<le> count_list G 10"
  shows "trim_lines (X @ G @ Y) = trim_lines X @ replicate (count_list G 10) 10 @ trim_lines Y"
proof -
  from assms(2) have "10 \<in> set G" by (metis count_list_0_iff not_one_le_zero)
  from split_list_first [OF this] obtain w r where G: "G = w @ 10 # r" "10 \<notin> set w" by blast
  from assms(1) G have w: "list_all is_ws w" and r: "list_all is_ws r" by simp_all
  have c: "count_list G 10 = Suc (count_list r 10)"
    using G by (simp add: count_list_0_iff)
  have "trim_lines (X @ G @ Y) = trim_lines (X @ w) @ 10 # trim_lines (r @ Y)"
    using trim_lines_nl [of "X @ w" "r @ Y"] by (simp add: G)
  also have "trim_lines (X @ w) = trim_lines X" by (rule trim_lines_ws_right [OF w G(2)])
  also have "trim_lines (r @ Y) = replicate (count_list r 10) 10 @ trim_lines Y"
    by (rule trim_lines_group_left [OF r])
  finally show ?thesis by (simp add: c)
qed

lemma clean_whitespace_group:
  assumes "pre \<noteq> []" "\<not> is_ws (last pre)" "post \<noteq> []" "\<not> is_ws (hd post)"
    and "list_all is_ws g" "1 \<le> count_list g 10"
  shows "clean_whitespace (pre @ g @ post)
         = clean_whitespace pre @ replicate (min (count_list g 10) 2) 10 @ clean_whitespace post"
proof -
  obtain p a where p: "pre = p @ [a]" using assms(1) by (metis rev_exhaust)
  obtain b q where q: "post = b # q" using assms(3) by (cases post) auto
  from assms p q have a: "\<not> is_ws a" and b: "\<not> is_ws b" by auto
  from a b have a': "\<not> is_blank a" and b': "\<not> is_blank b" by (auto dest: blank_ws)
  obtain z1 where z1: "one_space (p @ [a]) = z1 @ [a]" using one_space_last [OF a'] by blast
  obtain G1 where G1: "one_space (g @ b # q) = G1 @ b # one_space q" "list_all is_ws G1"
    "count_list G1 10 = count_list g 10"
    using one_space_group [OF assms(5) b'] by blast
  have t1: "one_space (pre @ g @ post) = z1 @ a # (G1 @ b # one_space q)"
    using one_space_solid [OF a', of p "g @ post"] z1 G1(1) by (simp add: p q)
  obtain z2 where z2: "collapse (z1 @ [a]) = z2 @ [a]" using collapse_last [OF a] by blast
  obtain G2 where G2: "collapse (G1 @ b # one_space q) = G2 @ b # collapse (one_space q)"
    "list_all is_ws G2" "count_list G2 10 = min (count_list G1 10) 2"
    using collapse_group [OF G1(2) b] by blast
  have t2: "collapse (one_space (pre @ g @ post)) = (z2 @ [a]) @ G2 @ (b # collapse (one_space q))"
    unfolding t1 using collapse_solid [OF a, of z1 "G1 @ b # one_space q"] z2 G2(1) by simp
  have m: "1 \<le> count_list G2 10" "count_list G2 10 = min (count_list g 10) 2"
    using G2(3) G1(3) assms(6) by auto
  obtain z3 where z3: "trim_lines (z2 @ [a]) = z3 @ [a]" using trim_lines_last [OF a] by blast
  obtain z4 where z4: "trim_lines (b # collapse (one_space q)) = b # z4" using trim_lines_hd [OF b] by blast
  have t3: "trim_lines (collapse (one_space (pre @ g @ post)))
            = z3 @ [a] @ replicate (min (count_list g 10) 2) 10 @ b # z4"
    unfolding t2 using trim_lines_group [OF G2(2) m(1), of "z2 @ [a]" "b # collapse (one_space q)"]
    by (simp add: z3 z4 m(2))
  have l: "clean_whitespace pre = trim (z3 @ [a])"
    by (simp add: clean_whitespace_eq p z1 z2 z3)
  have r: "clean_whitespace post = trim (b # z4)"
    by (simp add: clean_whitespace_eq q one_space_keep [OF b'] collapse_hd [OF b] z4)
  show ?thesis
    unfolding l r clean_whitespace_eq [of "pre @ g @ post"] t3
    by (rule trim_solid [OF a b])
qed

lemma clean_whitespace_trimmed: "trimmed (clean_whitespace t)"
  unfolding clean_whitespace_eq by (rule trimmed_trim)

subsection \<open>Runs of newlines\<close>

text \<open>
  Claim C7 as stated (every run of three or more consecutive newlines of the intermediate
  text is collapsed to exactly two) fails. On markup without tags and entities the
  statements before the clean-up change nothing, so the intermediate text is the markup
  itself. A run of three newlines at the start of the text, or at its end, leaves no
  newline at all: the replacement makes two of them and the final \<^verbatim>\<open>trim\<close> removes
  both. Two runs of three newlines with a blank between them leave one pair of newlines
  together, not a pair each: the pattern \<^verbatim>\<open>/\n\s*\n\s*\n/\<close> is greedy and takes both runs
  in one match.
\<close>

theorem newline_runs_not_each_collapsed_to_two_counterexample:
  "htmlToText (\<lambda>h. h) (asc ''\<newline>\<newline>\<newline>a'') = asc ''a''
   \<and> htmlToText (\<lambda>h. h) (asc ''a\<newline>\<newline>\<newline>'') = asc ''a''
   \<and> htmlToText (\<lambda>h. h) (asc ''a\<newline>\<newline>\<newline> \<newline>\<newline>\<newline>b'') = asc ''a\<newline>\<newline>b''"
  by (simp add: htmlToText_def html_eval)

text \<open>
  Claim C7, amended. For every markup string the text returned by \<^verbatim>\<open>htmlToText\<close>

  \<^item> contains no three consecutive newlines;
  \<^item> has no white space, so no newline, at its start or at its end;
  \<^item> and has, in the place of a block of white space of the intermediate text that stands
    between two characters that are not white space and contains \<open>k \<ge> 1\<close> newlines,
    exactly \<open>min k 2\<close> newlines and nothing else: the result is the clean-up of what
    precedes the block, these newlines, and the clean-up of what follows it. So every run
    of three or more newlines inside the text comes out, together with the other newlines
    of its block, as exactly two.

  The statement holds whatever the statements before the clean-up produce.
\<close>

theorem htmlToText_newline_blocks:
  "(\<nexists>xs ys. htmlToText strip_markup html = xs @ [10, 10, 10] @ ys)
   \<and> trimmed (htmlToText strip_markup html)
   \<and> (strip_markup html = pre @ g @ post
        \<and> pre \<noteq> [] \<and> \<not> is_ws (last pre) \<and> post \<noteq> [] \<and> \<not> is_ws (hd post)
        \<and> list_all is_ws g \<and> 1 \<le> count_list g 10
      \<longrightarrow> htmlToText strip_markup html
            = clean_whitespace pre @ replicate (min (count_list g 10) 2) 10 @ clean_whitespace post)"
  using clean_whitespace_no_triple [of "strip_markup html"] clean_whitespace_group [of pre post g]
    clean_whitespace_trimmed [of "strip_markup html"]
  by (simp add: htmlToText_def)

text \<open>Witness for C7: a block of four newlines and a blank between \<^verbatim>\<open>a\<close> and
  \<^verbatim>\<open>b  c\<close>.\<close>

theorem htmlToText_newline_blocks_witness:
  "asc ''a'' \<noteq> [] \<and> \<not> is_ws (last (asc ''a'')) \<and> asc ''b  c'' \<noteq> [] \<and> \<not> is_ws (hd (asc ''b  c''))
   \<and> list_all is_ws (asc ''\<newline> \<newline>\<newline>\<newline>'') \<and> 1 \<le> count_list (asc ''\<newline> \<newline>\<newline>\<newline>'') 10
   \<and> htmlToText (\<lambda>h. h) (asc ''a'' @ asc ''\<newline> \<newline>\<newline>\<newline>'' @ asc ''b  c'') = asc ''a\<newline>\<newline>b c''
   \<and> trimmed (asc ''a\<newline>\<newline>b c'')"
proof -
  have l: "clean_whitespace (asc ''a'') = asc ''a''" by (simp add: html_eval)
  have r: "clean_whitespace (asc ''b  c'') = asc ''b c''" by (simp add: html_eval)
  have h: "asc ''a'' \<noteq> [] \<and> \<not> is_ws (last (asc ''a'')) \<and> asc ''b  c'' \<noteq> [] \<and> \<not> is_ws (hd (asc ''b  c''))
           \<and> list_all is_ws (asc ''\<newline> \<newline>\<newline>\<newline>'') \<and> 1 \<le> count_list (asc ''\<newline> \<newline>\<newline>\<newline>'') 10"
    by (simp add: asc_def is_ws_def)
  have c: "min (count_list (asc ''\<newline> \<newline>\<newline>\<newline>'') 10) 2 = 2" by (simp add: asc_def)
  note t = htmlToText_newline_blocks
      [of "\<lambda>h. h" "asc ''a'' @ asc ''\<newline> \<newline>\<newline>\<newline>'' @ asc ''b  c''" "asc ''a''" "asc ''\<newline> \<newline>\<newline>\<newline>''" "asc ''b  c''"]
  from t h have e: "htmlToText (\<lambda>h. h) (asc ''a'' @ asc ''\<newline> \<newline>\<newline>\<newline>'' @ asc ''b  c'')
        = clean_whitespace (asc ''a'') @ replicate (min (count_list (asc ''\<newline> \<newline>\<newline>\<newline>'') 10) 2) 10
          @ clean_whitespace (asc ''b  c'')"
    by blast
  have e': "htmlToText (\<lambda>h. h) (asc ''a'' @ asc ''\<newline> \<newline>\<newline>\<newline>'' @ asc ''b  c'') = asc ''a\<newline>\<newline>b c''"
    unfolding e c l r by (simp add: asc_def numeral_2_eq_2)
  from t have "trimmed (htmlToText (\<lambda>h. h) (asc ''a'' @ asc ''\<newline> \<newline>\<newline>\<newline>'' @ asc ''b  c''))" by blast
  with e' h show ?thesis by simp
qed

end
